theory Spec2Isabelle
  imports Main "HOL-Library.Word"
begin

section \<open>Terms of the blast engine\<close>

text \<open>
  Modelled from the spec: names, universe levels and expressions (\<^verbatim>\<open>kernel/expr.h\<close>,
  \<^verbatim>\<open>kernel/level.h\<close> and \<^verbatim>\<open>blast/expr.h\<close> are not among the sources). Expressions
  are those of the ambient calculus; the three kinds of reference of the engine are a
  local constant (\<open>href\<close>), a metavariable (\<open>mref\<close>) and a universe metavariable
  (\<open>uref\<close>) under a reserved name that carries the index, which is how
  \<^verbatim>\<open>blast.cpp\<close> treats them: \<^verbatim>\<open>visit_local\<close> meets the hypothesis references and
  \<^verbatim>\<open>visit_meta\<close> the metavariable references. \<open>Tmp_name i\<close> is the name of a
  temporary local constant, \<open>Name s\<close> any name of the caller.
\<close>

datatype name = Name string | Href_name nat | Mref_name nat | Uref_name nat | Tmp_name nat

datatype level =
    LZero
  | LSucc level
  | LMax level level
  | LIMax level level
  | LParam name
  | LGlobal name
  | LMeta name

datatype binder_info = Binder_default | Binder_implicit | Binder_inst_implicit

text \<open>
  A local constant and a metavariable are identified by their name; a type annotation
  on them is not part of the model (the types of hypotheses and of metavariables live
  in the state, the type of an external metavariable application is served by the
  type checker).
\<close>

datatype expr =
    Var nat
  | Sort level
  | Constant name "level list"
  | Meta name
  | Local name
  | App expr expr
  | Lam name expr expr binder_info
  | Pi name expr expr binder_info
  | Macro string "expr list"

definition mk_href :: "nat \<Rightarrow> expr" where
  "mk_href i = Local (Href_name i)"

definition mk_mref :: "nat \<Rightarrow> expr" where
  "mk_mref i = Meta (Mref_name i)"

definition mk_uref :: "nat \<Rightarrow> level" where
  "mk_uref i = LMeta (Uref_name i)"

fun is_local :: "expr \<Rightarrow> bool" where
  "is_local (Local n) = True"
| "is_local e = False"

fun is_metavar :: "expr \<Rightarrow> bool" where
  "is_metavar (Meta n) = True"
| "is_metavar e = False"

fun is_href :: "expr \<Rightarrow> bool" where
  "is_href (Local (Href_name i)) = True"
| "is_href e = False"

fun is_mref :: "expr \<Rightarrow> bool" where
  "is_mref (Meta (Mref_name i)) = True"
| "is_mref e = False"

fun is_tmp_local :: "expr \<Rightarrow> bool" where
  "is_tmp_local (Local (Tmp_name i)) = True"
| "is_tmp_local e = False"

fun href_index :: "expr \<Rightarrow> nat option" where
  "href_index (Local (Href_name i)) = Some i"
| "href_index e = None"

fun mref_index :: "expr \<Rightarrow> nat option" where
  "mref_index (Meta (Mref_name i)) = Some i"
| "mref_index e = None"

text \<open>
  \<^verbatim>\<open>mlocal_name\<close> is the accessor for the name of a local constant or of a
  metavariable. On any other expression it has no name to return.
\<close>

fun mlocal_name :: "expr \<Rightarrow> name option" where
  "mlocal_name (Local n) = Some n"
| "mlocal_name (Meta n) = Some n"
| "mlocal_name e = None"

text \<open>
  The comparison \<^verbatim>\<open>mlocal_name(a) != mlocal_name(e)\<close> of the source, for two local
  constants or metavariables, is \<open>\<not> same_mlocal_name a e\<close>. The kernel's
  \<^verbatim>\<open>mlocal_name\<close> asserts that its argument is one of the two; the comparison is used
  here for the local constants of \<^verbatim>\<open>validate_assignment\<close> only, and in statements
  about arguments that are local constants or metavariables. Where the source can
  reach \<^verbatim>\<open>mlocal_name\<close> with another expression, in the scan of
  \<^verbatim>\<open>visit_meta_app\<close>, the model tests the assertion (\<open>earlier_names_differ\<close> below).
\<close>

definition same_mlocal_name :: "expr \<Rightarrow> expr \<Rightarrow> bool" where
  "same_mlocal_name a e =
     (case mlocal_name a of
        None \<Rightarrow> False
      | Some n \<Rightarrow> (case mlocal_name e of None \<Rightarrow> False | Some n' \<Rightarrow> n = n'))"

fun get_app_fn :: "expr \<Rightarrow> expr" where
  "get_app_fn (App f a) = get_app_fn f"
| "get_app_fn e = e"

fun get_app_args :: "expr \<Rightarrow> expr list" where
  "get_app_args (App f a) = get_app_args f @ [a]"
| "get_app_args e = []"

definition mk_app :: "expr \<Rightarrow> expr list \<Rightarrow> expr" where
  "mk_app f args = foldl App f args"

definition is_meta :: "expr \<Rightarrow> bool" where
  "is_meta e = is_metavar (get_app_fn e)"

text \<open>\<open>closed_at k e\<close>: every de Bruijn variable of \<open>e\<close> is bound by one of the \<open>k\<close>
  enclosing binders; \<open>closed e\<close> is the kernel's test for no loose bound variable.\<close>

fun closed_at :: "nat \<Rightarrow> expr \<Rightarrow> bool" where
  "closed_at k (Var i) = (i < k)"
| "closed_at k (App f a) = (closed_at k f \<and> closed_at k a)"
| "closed_at k (Lam n d b bi) = (closed_at k d \<and> closed_at (Suc k) b)"
| "closed_at k (Pi n d b bi) = (closed_at k d \<and> closed_at (Suc k) b)"
| "closed_at k (Macro d args) = list_all (closed_at k) args"
| "closed_at k e = True"

definition closed :: "expr \<Rightarrow> bool" where
  "closed e = closed_at 0 e"

section \<open>The state\<close>

text \<open>
  Modelled from the spec: the declarations of \<^verbatim>\<open>blast/state.h\<close> and
  \<^verbatim>\<open>blast/hypothesis.h\<close> are not among the sources. A hypothesis has a
  pretty name, a type and the optional expression that \<^verbatim>\<open>get_value()\<close> returns: what
  was recorded for the hypothesis when it was made. \<^verbatim>\<open>to_state\<close> records the external
  local constant of an input hypothesis there (the third argument of
  \<^verbatim>\<open>mk_hypothesis\<close>). A metavariable declaration has a type and the set of hypothesis
  indices that is its admissible context.
\<close>

record hypothesis =
  h_name :: name
  h_type :: expr
  h_value :: "expr option"

record metavar_decl =
  md_type :: expr
  md_context :: "nat set"

text \<open>
  Modelled from the spec: the state owns the hypothesis table, the table of
  metavariable declarations, the two assignments, the target and the stack of proof
  steps. The assignments only grow by appending and a snapshot shrinks them back, so
  they are lists of bindings, the latest binding of an index last. A proof step is
  opaque; \<open>'ps\<close> is the type of proof steps.
\<close>

record 'ps state =
  m_hyps :: "nat \<rightharpoonup> hypothesis"
  m_metavar_decls :: "nat \<rightharpoonup> metavar_decl"
  m_uassignment :: "(nat \<times> level) list"
  m_eassignment :: "(nat \<times> expr) list"
  m_target :: expr
  m_proof_steps :: "'ps list"

definition get_hypothesis_decl :: "'ps state \<Rightarrow> expr \<Rightarrow> hypothesis option" where
  "get_hypothesis_decl s e = (case href_index e of None \<Rightarrow> None | Some i \<Rightarrow> m_hyps s i)"

definition get_metavar_decl :: "'ps state \<Rightarrow> expr \<Rightarrow> metavar_decl option" where
  "get_metavar_decl s m = (case mref_index m of None \<Rightarrow> None | Some i \<Rightarrow> m_metavar_decls s i)"

definition contains_href :: "metavar_decl \<Rightarrow> expr \<Rightarrow> bool" where
  "contains_href d e = (case href_index e of None \<Rightarrow> False | Some i \<Rightarrow> i \<in> md_context d)"

text \<open>Modelled from the spec: lookup of an assignment is the latest binding of the
  index; an expression that is not a reference of the right kind has none.\<close>

definition get_mref_assignment :: "'ps state \<Rightarrow> expr \<Rightarrow> expr option" where
  "get_mref_assignment s m =
     (case mref_index m of None \<Rightarrow> None | Some i \<Rightarrow> map_of (rev (m_eassignment s)) i)"

fun uref_index :: "level \<Rightarrow> nat option" where
  "uref_index (LMeta (Uref_name i)) = Some i"
| "uref_index l = None"

definition get_uref_assignment :: "'ps state \<Rightarrow> level \<Rightarrow> level option" where
  "get_uref_assignment s u =
     (case uref_index u of None \<Rightarrow> None | Some i \<Rightarrow> map_of (rev (m_uassignment s)) i)"

text \<open>Modelled from the spec: \<^verbatim>\<open>assign_uref\<close> and \<^verbatim>\<open>assign_mref\<close> record an
  assignment by appending it. Called on an expression that is not a reference they
  are outside their contract; the model leaves the state as it is.\<close>

definition assign_mref :: "expr \<Rightarrow> expr \<Rightarrow> 'ps state \<Rightarrow> 'ps state" where
  "assign_mref m v s =
     (case mref_index m of
        None \<Rightarrow> s
      | Some i \<Rightarrow> s\<lparr>m_eassignment := m_eassignment s @ [(i, v)]\<rparr>)"

definition assign_uref :: "level \<Rightarrow> level \<Rightarrow> 'ps state \<Rightarrow> 'ps state" where
  "assign_uref u v s =
     (case uref_index u of
        None \<Rightarrow> s
      | Some i \<Rightarrow> s\<lparr>m_uassignment := m_uassignment s @ [(i, v)]\<rparr>)"

text \<open>Modelled from the spec: an assignment snapshot records the current sizes of
  the two assignments, and restoring shrinks the assignments back to the recorded
  sizes.\<close>

record assignment_snapshot =
  snap_usize :: nat
  snap_esize :: nat

definition save_assignment :: "'ps state \<Rightarrow> assignment_snapshot" where
  "save_assignment s =
     \<lparr>snap_usize = length (m_uassignment s), snap_esize = length (m_eassignment s)\<rparr>"

definition restore_assignment :: "'ps state \<Rightarrow> assignment_snapshot \<Rightarrow> 'ps state" where
  "restore_assignment s sn =
     s\<lparr>m_uassignment := take (snap_usize sn) (m_uassignment s),
       m_eassignment := take (snap_esize sn) (m_eassignment s)\<rparr>"

section \<open>The engine and its type context\<close>

text \<open>
  The fields of \<^verbatim>\<open>blastenv\<close> that the search driver and the type context read and
  write: the current state, the choice points, the three depth options (C++
  \<^verbatim>\<open>unsigned\<close>, 32 bits) and the snapshot stack \<^verbatim>\<open>m_stack\<close> of the type context
  \<^verbatim>\<open>tctx\<close>.
\<close>

record 'ps blastenv =
  m_curr_state :: "'ps state"
  m_choice_points :: "'ps state list"
  m_max_depth :: "32 word"
  m_init_depth :: "32 word"
  m_inc_depth :: "32 word"
  m_stack :: "assignment_snapshot list"

definition tctx_get_assignment :: "'ps blastenv \<Rightarrow> expr \<Rightarrow> expr option" where
  "tctx_get_assignment b m = get_mref_assignment (m_curr_state b) m"

definition tctx_update_assignment :: "expr \<Rightarrow> expr \<Rightarrow> 'ps blastenv \<Rightarrow> 'ps blastenv" where
  "tctx_update_assignment m v b = b\<lparr>m_curr_state := assign_mref m v (m_curr_state b)\<rparr>"

definition tctx_push :: "'ps blastenv \<Rightarrow> 'ps blastenv" where
  "tctx_push b = b\<lparr>m_stack := m_stack b @ [save_assignment (m_curr_state b)]\<rparr>"

text \<open>\<^verbatim>\<open>pop\<close> and \<^verbatim>\<open>commit\<close> read and drop the last snapshot of \<^verbatim>\<open>m_stack\<close>; on an
  empty stack the C++ has no defined behaviour, the model returns \<open>None\<close>.\<close>

definition tctx_pop :: "'ps blastenv \<Rightarrow> 'ps blastenv option" where
  "tctx_pop b =
     (if m_stack b = [] then None
      else Some (b\<lparr>m_curr_state := restore_assignment (m_curr_state b) (last (m_stack b)),
                   m_stack := butlast (m_stack b)\<rparr>))"

definition tctx_commit :: "'ps blastenv \<Rightarrow> 'ps blastenv option" where
  "tctx_commit b =
     (if m_stack b = [] then None else Some (b\<lparr>m_stack := butlast (m_stack b)\<rparr>))"

text \<open>A run of assignments \<open>m \<mapsto> v\<close>, in order.\<close>

fun tctx_update_assignments :: "(expr \<times> expr) list \<Rightarrow> 'ps blastenv \<Rightarrow> 'ps blastenv" where
  "tctx_update_assignments [] b = b"
| "tctx_update_assignments ((m, v) # as) b =
     tctx_update_assignments as (tctx_update_assignment m v b)"

section \<open>Assignment validation\<close>

text \<open>
  \<open>subterms e\<close>: the expressions that occur in \<open>e\<close>, \<open>e\<close> itself among them.
  \<open>href_occs e\<close>: the indices of the hypothesis references that occur in \<open>e\<close>.
\<close>

fun subterms :: "expr \<Rightarrow> expr set" where
  "subterms (App f a) = insert (App f a) (subterms f \<union> subterms a)"
| "subterms (Lam n d b bi) = insert (Lam n d b bi) (subterms d \<union> subterms b)"
| "subterms (Pi n d b bi) = insert (Pi n d b bi) (subterms d \<union> subterms b)"
| "subterms (Macro d args) = insert (Macro d args) (\<Union> (set (map subterms args)))"
| "subterms e = {e}"

fun href_occs :: "expr \<Rightarrow> nat set" where
  "href_occs (Local (Href_name i)) = {i}"
| "href_occs (App f a) = href_occs f \<union> href_occs a"
| "href_occs (Lam n d b bi) = href_occs d \<union> href_occs b"
| "href_occs (Pi n d b bi) = href_occs d \<union> href_occs b"
| "href_occs (Macro d args) = \<Union> (set (map href_occs args))"
| "href_occs e = {}"

text \<open>
  Modelled from the spec: \<^verbatim>\<open>restrict_mref_context_using(m', m)\<close> of
  \<^verbatim>\<open>blast/state.h\<close> narrows the admissible context of \<open>m'\<close> to the intersection of
  its context and that of \<open>m\<close>; it fails (\<open>None\<close>) if the result would invalidate an
  existing assignment of \<open>m'\<close>, that is, if the value assigned to \<open>m'\<close> holds a
  hypothesis reference outside the narrowed context. It also fails on a reference
  that has no declaration.
\<close>

definition restrict_mref_context_using :: "expr \<Rightarrow> expr \<Rightarrow> 'ps state \<Rightarrow> 'ps state option" where
  "restrict_mref_context_using m' m s =
     (case mref_index m' of
        None \<Rightarrow> None
      | Some i \<Rightarrow>
         (case m_metavar_decls s i of
            None \<Rightarrow> None
          | Some d' \<Rightarrow>
             (case get_metavar_decl s m of
                None \<Rightarrow> None
              | Some d \<Rightarrow>
                 (let ctx = md_context d' \<inter> md_context d;
                      s' = s\<lparr>m_metavar_decls := (m_metavar_decls s)(i \<mapsto> d'\<lparr>md_context := ctx\<rparr>)\<rparr>
                  in case get_mref_assignment s m' of
                       None \<Rightarrow> Some s'
                     | Some v' \<Rightarrow> if href_occs v' \<subseteq> ctx then Some s' else None))))"

text \<open>
  Modelled from the spec: \<^verbatim>\<open>for_each\<close> (\<^verbatim>\<open>kernel/for_each_fn.h\<close> is not among the
  sources). The validation is to check every hypothesis reference, local constant and
  metavariable reference in the value, so \<^verbatim>\<open>for_each\<close> calls \<open>f\<close> on the expression
  and, when \<open>f\<close> answers true, goes on into its immediate subterms, first to last
  (the source's \<^verbatim>\<open>return false; // stop search\<close>). What \<open>f\<close> updates by reference
  (here: the flag \<^verbatim>\<open>ok\<close> and the state) is threaded through as \<open>'a\<close>.
\<close>

fun for_each :: "(expr \<Rightarrow> 'a \<Rightarrow> bool \<times> 'a) \<Rightarrow> expr \<Rightarrow> 'a \<Rightarrow> 'a" where
  "for_each f (App fn arg) a =
     (case f (App fn arg) a of
        (True, a') \<Rightarrow> for_each f arg (for_each f fn a')
      | (False, a') \<Rightarrow> a')"
| "for_each f (Lam n d b bi) a =
     (case f (Lam n d b bi) a of
        (True, a') \<Rightarrow> for_each f b (for_each f d a')
      | (False, a') \<Rightarrow> a')"
| "for_each f (Pi n d b bi) a =
     (case f (Pi n d b bi) a of
        (True, a') \<Rightarrow> for_each f b (for_each f d a')
      | (False, a') \<Rightarrow> a')"
| "for_each f (Macro d args) a =
     (case f (Macro d args) a of
        (True, a') \<Rightarrow> fold (for_each f) args a'
      | (False, a') \<Rightarrow> a')"
| "for_each f e a = snd (f e a)"

text \<open>
  The function that \<^verbatim>\<open>tctx::validate_assignment\<close> hands to \<^verbatim>\<open>for_each\<close>. \<open>d\<close> is
  the declaration of \<open>m\<close>, read once before the traversal. The source calls the
  restriction as a statement and reads nothing back: where the restriction fails the
  traversal goes on with the state it had.
\<close>

definition validate_step ::
  "metavar_decl \<Rightarrow> expr \<Rightarrow> expr list \<Rightarrow> expr \<Rightarrow> bool \<times> 'ps state \<Rightarrow> bool \<times> (bool \<times> 'ps state)" where
  "validate_step d m locals e st =
     (case st of (ok, s) \<Rightarrow>
        if \<not> ok then (False, (ok, s))
        else if is_href e then
          (if \<not> contains_href d e then (False, (False, s)) else (True, (ok, s)))
        else if is_local e \<and> \<not> is_tmp_local e then
          (if list_all (\<lambda>a. \<not> same_mlocal_name a e) locals then (False, (False, s))
           else (True, (ok, s)))
        else if is_mref e then
          (if m = e then (False, (False, s))
           else (False, (ok, (case restrict_mref_context_using e m s of
                                None \<Rightarrow> s | Some s' \<Rightarrow> s'))))
        else (True, (ok, s)))"

text \<open>\<^verbatim>\<open>tctx::validate_assignment(m, locals, v)\<close> on the current state: the answer
  and the state it leaves. \<open>m\<close> must have a declaration (\<^verbatim>\<open>lean_assert(d)\<close>); without
  one there is no result.\<close>

definition validate_assignment ::
  "expr \<Rightarrow> expr list \<Rightarrow> expr \<Rightarrow> 'ps state \<Rightarrow> (bool \<times> 'ps state) option" where
  "validate_assignment m locals v s =
     (case get_metavar_decl s m of
        None \<Rightarrow> None
      | Some d \<Rightarrow> Some (for_each (validate_step d m locals) v (True, s)))"

text \<open>The same on the engine, whose current state the type context reads and writes.\<close>

definition tctx_validate_assignment ::
  "expr \<Rightarrow> expr list \<Rightarrow> expr \<Rightarrow> 'ps blastenv \<Rightarrow> (bool \<times> 'ps blastenv) option" where
  "tctx_validate_assignment m locals v b =
     (case validate_assignment m locals v (m_curr_state b) of
        None \<Rightarrow> None
      | Some (ok, s') \<Rightarrow> Some (ok, b\<lparr>m_curr_state := s'\<rparr>))"

text \<open>
  What the traversal has done to the state \<open>s0\<close> it started from once the
  metavariables with index in \<open>V\<close> were met: nothing but the table of declarations
  differs, the declaration \<open>d\<close> of the metavariable \<open>j\<close> being assigned is in place, and
  every metavariable without an assignment has its context narrowed by that of \<open>d\<close> if
  it was met, and its old declaration otherwise.
\<close>

definition narrowed_decl :: "metavar_decl \<Rightarrow> metavar_decl \<Rightarrow> metavar_decl" where
  "narrowed_decl d d' = d'\<lparr>md_context := md_context d' \<inter> md_context d\<rparr>"

definition va_inv :: "metavar_decl \<Rightarrow> nat \<Rightarrow> nat set \<Rightarrow> 'ps state \<Rightarrow> 'ps state \<Rightarrow> bool" where
  "va_inv d j V s0 s \<longleftrightarrow>
     m_hyps s = m_hyps s0 \<and> m_uassignment s = m_uassignment s0
   \<and> m_eassignment s = m_eassignment s0 \<and> m_target s = m_target s0
   \<and> m_proof_steps s = m_proof_steps s0
   \<and> m_metavar_decls s j = Some d
   \<and> (\<forall>i. map_of (rev (m_eassignment s0)) i = None \<longrightarrow>
          m_metavar_decls s i =
            (if i \<in> V then map_option (narrowed_decl d) (m_metavar_decls s0 i)
             else m_metavar_decls s0 i))"

definition mref_occs :: "expr \<Rightarrow> nat set" where
  "mref_occs e = {i. mk_mref i \<in> subterms e}"

text \<open>The three breaches that make \<^verbatim>\<open>validate_assignment\<close> answer false, at one
  expression \<open>e\<close>.\<close>

definition va_bad :: "metavar_decl \<Rightarrow> expr \<Rightarrow> expr list \<Rightarrow> expr \<Rightarrow> bool" where
  "va_bad d m locals e \<longleftrightarrow>
     (is_href e \<and> \<not> contains_href d e)
   \<or> (is_local e \<and> \<not> is_href e \<and> \<not> is_tmp_local e \<and> (\<forall>a \<in> set locals. \<not> same_mlocal_name a e))
   \<or> (is_mref e \<and> e = m)"

section \<open>The search driver\<close>

text \<open>
  Modelled from the spec: the proof-step stack of the state (\<^verbatim>\<open>blast/state.h\<close>). The
  proof depth is the number of proof steps on the stack, a C++ \<^verbatim>\<open>unsigned\<close>.
  \<^verbatim>\<open>top_proof_step\<close> is only called on a stack that has a step.
\<close>

definition has_proof_steps :: "'ps state \<Rightarrow> bool" where
  "has_proof_steps s = (m_proof_steps s \<noteq> [])"

definition top_proof_step :: "'ps state \<Rightarrow> 'ps" where
  "top_proof_step s = hd (m_proof_steps s)"

definition pop_proof_step :: "'ps state \<Rightarrow> 'ps state" where
  "pop_proof_step s = s\<lparr>m_proof_steps := tl (m_proof_steps s)\<rparr>"

definition push_proof_step :: "'ps \<Rightarrow> 'ps state \<Rightarrow> 'ps state" where
  "push_proof_step p s = s\<lparr>m_proof_steps := p # m_proof_steps s\<rparr>"

definition get_proof_depth :: "'ps state \<Rightarrow> 32 word" where
  "get_proof_depth s = of_nat (length (m_proof_steps s))"

text \<open>
  The collaborators of the driver that are not among the sources: the three actions
  (\<^verbatim>\<open>blast/intros.h\<close>, \<^verbatim>\<open>state::activate_hypothesis\<close>, \<^verbatim>\<open>blast/assumption.h\<close>) and
  the resolver of a proof step. They reach the engine through \<^verbatim>\<open>curr_state()\<close>
  only, so each is a function of the current state that returns its answer and the
  state it leaves.
\<close>

record 'ps actions =
  intros_action :: "'ps state \<Rightarrow> bool \<times> 'ps state"
  activate_hypothesis :: "'ps state \<Rightarrow> nat option \<times> 'ps state"
  assumption_action :: "'ps state \<Rightarrow> expr option \<times> 'ps state"
  step_resolve :: "'ps \<Rightarrow> 'ps state \<Rightarrow> expr \<Rightarrow> expr option \<times> 'ps state"

text \<open>\<^verbatim>\<open>pair<status, expr>\<close>: the expression is only read for \<^verbatim>\<open>ClosedBranch\<close>.\<close>

datatype status = NoAction | ClosedBranch expr | Continue

definition next_choice_point :: "'ps blastenv \<Rightarrow> bool \<times> 'ps blastenv" where
  "next_choice_point b =
     (if m_choice_points b = [] then (False, b)
      else (True, b\<lparr>m_curr_state := last (m_choice_points b),
                    m_choice_points := butlast (m_choice_points b)\<rparr>))"

definition next_action :: "'ps actions \<Rightarrow> 'ps blastenv \<Rightarrow> status \<times> 'ps blastenv" where
  "next_action A b =
     (case intros_action A (m_curr_state b) of
        (True, s1) \<Rightarrow> (Continue, b\<lparr>m_curr_state := s1\<rparr>)
      | (False, s1) \<Rightarrow>
         (case activate_hypothesis A s1 of
            (Some h, s2) \<Rightarrow> (Continue, b\<lparr>m_curr_state := s2\<rparr>)
          | (None, s2) \<Rightarrow>
             (case assumption_action A s2 of
                (Some pr, s3) \<Rightarrow> (ClosedBranch pr, b\<lparr>m_curr_state := s3\<rparr>)
              | (None, s3) \<Rightarrow> (NoAction, b\<lparr>m_curr_state := s3\<rparr>))))"

text \<open>
  \<^verbatim>\<open>blastenv::resolve\<close>, on the current state. The loop runs while the stack has a
  proof step; a resolver is free to change the state, the stack included, so the loop
  need not end: not returning is \<open>None\<close>.
\<close>

partial_function (option) resolve_loop ::
  "('ps \<Rightarrow> 'ps state \<Rightarrow> expr \<Rightarrow> expr option \<times> 'ps state) \<Rightarrow> 'ps state \<Rightarrow> expr
     \<Rightarrow> (expr option \<times> 'ps state) option" where
  "resolve_loop R s pr =
     (if has_proof_steps s then
        (case R (top_proof_step s) s pr of
           (Some new_pr, s') \<Rightarrow> resolve_loop R (pop_proof_step s') new_pr
         | (None, s') \<Rightarrow> Some (None, s'))
      else Some (Some pr, s))"

definition resolve :: "'ps actions \<Rightarrow> 'ps blastenv \<Rightarrow> expr \<Rightarrow> (expr option \<times> 'ps blastenv) option" where
  "resolve A b pr =
     (case resolve_loop (step_resolve A) (m_curr_state b) pr of
        None \<Rightarrow> None
      | Some (r, s') \<Rightarrow> Some (r, b\<lparr>m_curr_state := s'\<rparr>))"

text \<open>\<^verbatim>\<open>blastenv::search_upto\<close>: \<^verbatim>\<open>while (true)\<close>, so not returning is \<open>None\<close>.\<close>

partial_function (option) search_upto ::
  "'ps actions \<Rightarrow> 32 word \<Rightarrow> 'ps blastenv \<Rightarrow> (expr option \<times> 'ps blastenv) option" where
  "search_upto A depth b =
     (case (if get_proof_depth (m_curr_state b) > depth then next_choice_point b else (True, b)) of
        (ok1, b1) \<Rightarrow>
          if \<not> ok1 then Some (None, b1)
          else
            (case next_action A b1 of
               (NoAction, b2) \<Rightarrow>
                 (case next_choice_point b2 of
                    (ok2, b3) \<Rightarrow> if \<not> ok2 then Some (None, b3) else search_upto A depth b3)
             | (ClosedBranch e, b2) \<Rightarrow>
                 (case resolve A b2 e of
                    None \<Rightarrow> None
                  | Some (Some pr, b3) \<Rightarrow> Some (Some pr, b3)
                  | Some (None, b3) \<Rightarrow> search_upto A depth b3)
             | (Continue, b2) \<Rightarrow> search_upto A depth b2))"

text \<open>
  \<^verbatim>\<open>blastenv::search\<close>. \<open>search_loop A s d b\<close> is the \<^verbatim>\<open>while (d <= m_max_depth)\<close> loop
  with the saved state \<open>s\<close> and the depth \<open>d\<close>; \<open>d + m_inc_depth\<close> is addition of
  \<^verbatim>\<open>unsigned\<close>, which wraps at \<open>2 ^ 32\<close>.
\<close>

partial_function (option) search_loop ::
  "'ps actions \<Rightarrow> 'ps state \<Rightarrow> 32 word \<Rightarrow> 'ps blastenv \<Rightarrow> (expr option \<times> 'ps blastenv) option" where
  "search_loop A s d b =
     (if d \<le> m_max_depth b then
        (case search_upto A d b of
           None \<Rightarrow> None
         | Some (Some r, b1) \<Rightarrow> Some (Some r, b1)
         | Some (None, b1) \<Rightarrow>
             search_loop A s (d + m_inc_depth b1) (b1\<lparr>m_curr_state := s, m_choice_points := []\<rparr>))
      else Some (None, b))"

definition search :: "'ps actions \<Rightarrow> 'ps blastenv \<Rightarrow> (expr option \<times> 'ps blastenv) option" where
  "search A b = search_loop A (m_curr_state b) (m_init_depth b) b"

text \<open>
  The account of \<^verbatim>\<open>resolve\<close> in the specification, by recursion on the stack of proof
  steps: the top step is tried on the partial proof; if it answers with a new partial
  proof it is popped and the rest of the stack is tried on the new proof; if it
  answers incomplete the run stops with it still on the stack; an empty stack returns
  the proof.
\<close>

fun resolve_steps ::
  "('ps \<Rightarrow> 'ps state \<Rightarrow> expr \<Rightarrow> expr option \<times> 'ps state) \<Rightarrow> 'ps list \<Rightarrow> 'ps state \<Rightarrow> expr
     \<Rightarrow> expr option \<times> 'ps state" where
  "resolve_steps R [] s pr = (Some pr, s)"
| "resolve_steps R (p # ps) s pr =
     (case R p s pr of
        (Some new_pr, s') \<Rightarrow> resolve_steps R ps (pop_proof_step s') new_pr
      | (None, s') \<Rightarrow> (None, s'))"

text \<open>A resolver that leaves the stack of proof steps alone.\<close>

definition keeps_proof_steps :: "('ps \<Rightarrow> 'ps state \<Rightarrow> expr \<Rightarrow> expr option \<times> 'ps state) \<Rightarrow> bool" where
  "keeps_proof_steps R = (\<forall>p s pr. m_proof_steps (snd (R p s pr)) = m_proof_steps s)"

text \<open>
  Iterative deepening as the specification describes it, for the saved state \<open>s0\<close>,
  the bound \<open>mx\<close> and the increment \<open>inc\<close>: \<open>deepening A s0 mx inc d b res\<close> holds when
  the iterations from depth \<open>d\<close> and engine \<open>b\<close> on end with \<open>res\<close>. A depth beyond the
  bound ends the run with none; an iteration that finds a proof ends it with the
  proof; after an iteration that fails the state is reset to \<open>s0\<close>, the choice points
  are cleared and the next iteration runs at depth \<open>d + inc\<close>.
\<close>

inductive deepening ::
  "'ps actions \<Rightarrow> 'ps state \<Rightarrow> 32 word \<Rightarrow> 32 word \<Rightarrow> 32 word \<Rightarrow> 'ps blastenv
     \<Rightarrow> expr option \<times> 'ps blastenv \<Rightarrow> bool"
  for A :: "'ps actions" and s0 :: "'ps state" and mx :: "32 word" and inc :: "32 word" where
  exhausted: "\<not> d \<le> mx \<Longrightarrow> deepening A s0 mx inc d b (None, b)"
| found: "d \<le> mx \<Longrightarrow> search_upto A d b = Some (Some pr, b1) \<Longrightarrow>
          deepening A s0 mx inc d b (Some pr, b1)"
| deeper: "d \<le> mx \<Longrightarrow> search_upto A d b = Some (None, b1) \<Longrightarrow>
           deepening A s0 mx inc (d + inc) (b1\<lparr>m_curr_state := s0, m_choice_points := []\<rparr>) res \<Longrightarrow>
           deepening A s0 mx inc d b res"

text \<open>
  The iterations in the specification's numbering: \<open>nth_iteration A s0 mx inc k d b\<close>
  is the depth and the engine with which iteration \<open>k\<close> begins, counted from an
  iteration at depth \<open>d\<close> with engine \<open>b\<close>, when each of the \<open>k\<close> iterations before it
  was within the bound and failed. Every iteration fails when each iteration that is
  within the bound returns without a proof.
\<close>

fun nth_iteration ::
  "'ps actions \<Rightarrow> 'ps state \<Rightarrow> 32 word \<Rightarrow> 32 word \<Rightarrow> nat \<Rightarrow> 32 word \<Rightarrow> 'ps blastenv
     \<Rightarrow> (32 word \<times> 'ps blastenv) option" where
  "nth_iteration A s0 mx inc 0 d b = Some (d, b)"
| "nth_iteration A s0 mx inc (Suc k) d b =
     (if d \<le> mx then
        (case search_upto A d b of
           Some (None, b1) \<Rightarrow>
             nth_iteration A s0 mx inc k (d + inc) (b1\<lparr>m_curr_state := s0, m_choice_points := []\<rparr>)
         | _ \<Rightarrow> None)
      else None)"

definition every_iteration_fails ::
  "'ps actions \<Rightarrow> 'ps state \<Rightarrow> 32 word \<Rightarrow> 32 word \<Rightarrow> 32 word \<Rightarrow> 'ps blastenv \<Rightarrow> bool" where
  "every_iteration_fails A s0 mx inc d b \<longleftrightarrow>
     (\<forall>k d' b'. nth_iteration A s0 mx inc k d b = Some (d', b') \<longrightarrow> d' \<le> mx \<longrightarrow>
        (\<exists>b1. search_upto A d' b' = Some (None, b1)))"

text \<open>The options and the snapshot stack of two engines agree.\<close>

definition same_options :: "'ps blastenv \<Rightarrow> 'ps blastenv \<Rightarrow> bool" where
  "same_options b b' \<longleftrightarrow>
     m_max_depth b' = m_max_depth b \<and> m_init_depth b' = m_init_depth b
   \<and> m_inc_depth b' = m_inc_depth b \<and> m_stack b' = m_stack b"

section \<open>Internalization\<close>

text \<open>
  The two exceptions of \<^verbatim>\<open>to_blast_expr_fn\<close>, each with the offending expression.
  \<open>Assertion_violated\<close> stands for a \<^verbatim>\<open>lean_assert\<close> of the source that does not
  hold; \<open>Out_of_fuel\<close> is not an outcome of the code: the recursion of the visitor is
  bounded by a fuel argument, and a run that needs more returns it.
\<close>

datatype error =
    Unsupported_metavar_occ expr
  | Ill_formed_goal expr
  | Assertion_violated
  | Out_of_fuel

text \<open>
  What the visitor reads and writes by reference: the state under construction, the
  two maps of the engine, and the counters behind \<^verbatim>\<open>mk_fresh_uref\<close>,
  \<^verbatim>\<open>mk_metavar\<close> and \<^verbatim>\<open>mk_hypothesis\<close> (modelled from the spec: indices are
  allocated in increasing order and never reused within one engine).
\<close>

record 'ps to_blast_env =
  tb_state :: "'ps state"
  tb_uvar2uref :: "name \<rightharpoonup> level"
  tb_mvar2meta_mref :: "name \<rightharpoonup> expr \<times> expr"
  tb_next_uref :: nat
  tb_next_mref :: nat
  tb_next_href :: nat

text \<open>What the visitor only reads: the type checker's \<^verbatim>\<open>infer\<close> (a collaborator)
  and the map \<^verbatim>\<open>m_local2href\<close>.\<close>

record to_blast_cfg =
  cfg_infer :: "expr \<Rightarrow> expr"
  cfg_local2href :: "name \<rightharpoonup> expr"

text \<open>Modelled from the spec: \<^verbatim>\<open>mk_metavar(context, type)\<close> allocates a metavariable
  with the given admissible context; \<^verbatim>\<open>mk_hypothesis\<close> appends a hypothesis and
  returns its reference.\<close>

definition mk_metavar :: "nat list \<Rightarrow> expr \<Rightarrow> 'ps to_blast_env \<Rightarrow> expr \<times> 'ps to_blast_env" where
  "mk_metavar ctx ty st =
     (let k = tb_next_mref st;
          s = tb_state st;
          s' = s\<lparr>m_metavar_decls := (m_metavar_decls s)(k \<mapsto> \<lparr>md_type = ty, md_context = set ctx\<rparr>)\<rparr>
      in (mk_mref k, st\<lparr>tb_state := s', tb_next_mref := Suc k\<rparr>))"

definition mk_hypothesis :: "name \<Rightarrow> expr \<Rightarrow> expr \<Rightarrow> 'ps to_blast_env \<Rightarrow> expr \<times> 'ps to_blast_env" where
  "mk_hypothesis n ty v st =
     (let k = tb_next_href st;
          s = tb_state st;
          s' = s\<lparr>m_hyps := (m_hyps s)(k \<mapsto> \<lparr>h_name = n, h_type = ty, h_value = Some v\<rparr>)\<rparr>
      in (mk_href k, st\<lparr>tb_state := s', tb_next_href := Suc k\<rparr>))"

fun to_blast_level :: "level \<Rightarrow> 'ps to_blast_env \<Rightarrow> level \<times> 'ps to_blast_env" where
  "to_blast_level (LSucc l) st = (case to_blast_level l st of (l', st') \<Rightarrow> (LSucc l', st'))"
| "to_blast_level LZero st = (LZero, st)"
| "to_blast_level (LParam n) st = (LParam n, st)"
| "to_blast_level (LGlobal n) st = (LGlobal n, st)"
| "to_blast_level (LMax l r) st =
     (case to_blast_level l st of (lhs, st1) \<Rightarrow>
        (case to_blast_level r st1 of (rhs, st2) \<Rightarrow> (LMax lhs rhs, st2)))"
| "to_blast_level (LIMax l r) st =
     (case to_blast_level l st of (lhs, st1) \<Rightarrow>
        (case to_blast_level r st1 of (rhs, st2) \<Rightarrow> (LIMax lhs rhs, st2)))"
| "to_blast_level (LMeta n) st =
     (case tb_uvar2uref st n of
        Some r \<Rightarrow> (r, st)
      | None \<Rightarrow>
         (let uref = mk_uref (tb_next_uref st)
          in (uref, st\<lparr>tb_uvar2uref := (tb_uvar2uref st)(n \<mapsto> uref),
                       tb_next_uref := Suc (tb_next_uref st)\<rparr>)))"

text \<open>Mapping a function over a list, first to last, with the environment threaded
  through; the second stops at the first exception.\<close>

fun map_env :: "('a \<Rightarrow> 's \<Rightarrow> 'b \<times> 's) \<Rightarrow> 'a list \<Rightarrow> 's \<Rightarrow> 'b list \<times> 's" where
  "map_env f [] st = ([], st)"
| "map_env f (x # xs) st =
     (case f x st of (y, st1) \<Rightarrow> (case map_env f xs st1 of (ys, st2) \<Rightarrow> (y # ys, st2)))"

fun map_env_err :: "('a \<Rightarrow> 's \<Rightarrow> error + 'b \<times> 's) \<Rightarrow> 'a list \<Rightarrow> 's \<Rightarrow> error + 'b list \<times> 's" where
  "map_env_err f [] st = Inr ([], st)"
| "map_env_err f (x # xs) st =
     (case f x st of
        Inl err \<Rightarrow> Inl err
      | Inr (y, st1) \<Rightarrow>
         (case map_env_err f xs st1 of
            Inl err \<Rightarrow> Inl err
          | Inr (ys, st2) \<Rightarrow> Inr (y # ys, st2)))"

text \<open>\<^verbatim>\<open>mk_mref_app\<close>: the reference applied to the visited arguments. \<open>V\<close> is the
  visitor's \<^verbatim>\<open>visit\<close>.\<close>

definition mk_mref_app ::
  "(expr \<Rightarrow> 's \<Rightarrow> error + expr \<times> 's) \<Rightarrow> expr \<Rightarrow> expr list \<Rightarrow> 's \<Rightarrow> error + expr \<times> 's" where
  "mk_mref_app V mref args st =
     (case map_env_err V args st of
        Inl err \<Rightarrow> Inl err
      | Inr (new_args, st') \<Rightarrow> Inr (mk_app mref new_args, st'))"

text \<open>
  The test \<^verbatim>\<open>std::all_of(args.begin(), args.begin() + i, ...)\<close> of \<^verbatim>\<open>visit_meta_app\<close>:
  the earlier arguments \<open>prev\<close> are gone through first to last, and the name of each is
  compared with the name of the local constant \<open>l\<close>; the first one with that name
  ends the test with false. \<^verbatim>\<open>mlocal_name\<close> is applied to every earlier argument
  that is reached, also to one that was passed over for not being a local constant:
  the kernel's \<^verbatim>\<open>mlocal_name\<close> asserts \<^verbatim>\<open>is_mlocal\<close> (a local constant or a
  metavariable), and on another expression the assertion is violated.
\<close>

fun earlier_names_differ :: "expr list \<Rightarrow> expr \<Rightarrow> error + bool" where
  "earlier_names_differ [] l = Inr True"
| "earlier_names_differ (p # ps) l =
     (case mlocal_name p of
        None \<Rightarrow> Inl Assertion_violated
      | Some n \<Rightarrow> if mlocal_name l = Some n then Inr False else earlier_names_differ ps l)"

text \<open>
  The loop of \<^verbatim>\<open>visit_meta_app\<close> over a new application's arguments, \<open>prev\<close> being
  the arguments already passed and \<open>ctx\<close> the context collected so far. It stops at the
  first argument that is not closed; an argument that is not a local constant is
  passed over, and so is a local constant whose name an earlier argument has; any
  other local constant must be in \<^verbatim>\<open>m_local2href\<close>. The result is the context and the
  length of the prefix.
\<close>

fun scan_prefix ::
  "(name \<rightharpoonup> expr) \<Rightarrow> expr \<Rightarrow> expr list \<Rightarrow> expr list \<Rightarrow> nat list \<Rightarrow> error + nat list \<times> nat" where
  "scan_prefix l2h e prev [] ctx = Inr (ctx, length prev)"
| "scan_prefix l2h e prev (a # as) ctx =
     (if \<not> closed a then Inr (ctx, length prev)
      else if \<not> is_local a then scan_prefix l2h e (prev @ [a]) as ctx
      else
        (case earlier_names_differ prev a of
           Inl err \<Rightarrow> Inl err
         | Inr fresh \<Rightarrow>
            if \<not> fresh then scan_prefix l2h e (prev @ [a]) as ctx
            else
              (case mlocal_name a of
                 None \<Rightarrow> Inl Assertion_violated
               | Some n \<Rightarrow>
                  (case l2h n of
                     None \<Rightarrow> Inl (Unsupported_metavar_occ e)
                   | Some href \<Rightarrow>
                      (case href_index href of
                         None \<Rightarrow> Inl Assertion_violated
                       | Some i \<Rightarrow> scan_prefix l2h e (prev @ [a]) as (ctx @ [i]))))))"

text \<open>The loop of \<^verbatim>\<open>visit_meta_app\<close> that compares the arguments of the application
  recorded for a metavariable with those of a new one, position by position.\<close>

fun check_prefix :: "expr list \<Rightarrow> expr list \<Rightarrow> bool" where
  "check_prefix [] args = True"
| "check_prefix (d # ds) [] = False"
| "check_prefix (d # ds) (a # as) =
     (if is_local d then
        (if \<not> is_local a \<or> mlocal_name a \<noteq> mlocal_name d then False else check_prefix ds as)
      else if d \<noteq> a then False
      else check_prefix ds as)"

definition visit_meta_app ::
  "(expr \<Rightarrow> 'ps to_blast_env \<Rightarrow> error + expr \<times> 'ps to_blast_env) \<Rightarrow> to_blast_cfg \<Rightarrow> expr
     \<Rightarrow> 'ps to_blast_env \<Rightarrow> error + expr \<times> 'ps to_blast_env" where
  "visit_meta_app V C e st =
     (let args = get_app_args e; mvar = get_app_fn e in
      case mvar of
        Meta mn \<Rightarrow>
          (case tb_mvar2meta_mref st mn of
             Some (meta, mref) \<Rightarrow>
               (let decl_args = get_app_args meta in
                if length decl_args > length args then Inl (Unsupported_metavar_occ e)
                else if \<not> check_prefix decl_args args then Inl (Unsupported_metavar_occ e)
                else mk_mref_app V mref (drop (length decl_args) args) st)
           | None \<Rightarrow>
               (case scan_prefix (cfg_local2href C) e [] args [] of
                  Inl err \<Rightarrow> Inl err
                | Inr (ctx, prefix_sz) \<Rightarrow>
                   (let aux = mk_app mvar (take prefix_sz args) in
                    case V (cfg_infer C aux) st of
                      Inl err \<Rightarrow> Inl err
                    | Inr (ty, st1) \<Rightarrow>
                       (case mk_metavar ctx ty st1 of
                          (mref, st2) \<Rightarrow>
                            mk_mref_app V mref (drop prefix_sz args)
                              (st2\<lparr>tb_mvar2meta_mref := (tb_mvar2meta_mref st2)(mn \<mapsto> (e, mref))\<rparr>)))))
      | _ \<Rightarrow> Inl Assertion_violated)"

definition visit_local :: "to_blast_cfg \<Rightarrow> expr \<Rightarrow> 's \<Rightarrow> error + expr \<times> 's" where
  "visit_local C e st =
     (case mlocal_name e of
        None \<Rightarrow> Inl Assertion_violated
      | Some n \<Rightarrow>
         (case cfg_local2href C n of
            Some r \<Rightarrow> Inr (r, st)
          | None \<Rightarrow> Inl (Ill_formed_goal e)))"

text \<open>
  \<^verbatim>\<open>to_blast_expr_fn\<close>: the visitor, dispatching on the kind of expression as
  \<^verbatim>\<open>replace_visitor::visit\<close> does. The cache of results that the base visitor
  keeps for shared subterms is not modelled: every occurrence is visited.
\<close>

primrec visit ::
  "nat \<Rightarrow> to_blast_cfg \<Rightarrow> expr \<Rightarrow> 'ps to_blast_env \<Rightarrow> error + expr \<times> 'ps to_blast_env" where
  "visit 0 C e st = Inl Out_of_fuel"
| "visit (Suc n) C e st =
     (case e of
        Var i \<Rightarrow> Inr (Var i, st)
      | Sort l \<Rightarrow> (case to_blast_level l st of (l', st') \<Rightarrow> Inr (Sort l', st'))
      | Constant c ls \<Rightarrow>
          (case map_env to_blast_level ls st of (new_ls, st') \<Rightarrow> Inr (Constant c new_ls, st'))
      | Meta mn \<Rightarrow> visit_meta_app (visit n C) C e st
      | Local ln \<Rightarrow> visit_local C e st
      | App f a \<Rightarrow>
          if is_meta e then visit_meta_app (visit n C) C e st
          else
            (case visit n C f st of
               Inl err \<Rightarrow> Inl err
             | Inr (f', st1) \<Rightarrow>
                (case visit n C a st1 of
                   Inl err \<Rightarrow> Inl err
                 | Inr (a', st2) \<Rightarrow> Inr (App f' a', st2)))
      | Lam bn d b bi \<Rightarrow>
          (case visit n C d st of
             Inl err \<Rightarrow> Inl err
           | Inr (d', st1) \<Rightarrow>
              (case visit n C b st1 of
                 Inl err \<Rightarrow> Inl err
               | Inr (b', st2) \<Rightarrow> Inr (Lam bn d' b' bi, st2)))
      | Pi bn d b bi \<Rightarrow>
          (case visit n C d st of
             Inl err \<Rightarrow> Inl err
           | Inr (d', st1) \<Rightarrow>
              (case visit n C b st1 of
                 Inl err \<Rightarrow> Inl err
               | Inr (b', st2) \<Rightarrow> Inr (Pi bn d' b' bi, st2)))
      | Macro md args \<Rightarrow>
          (case map_env_err (visit n C) args st of
             Inl err \<Rightarrow> Inl err
           | Inr (new_args, st') \<Rightarrow> Inr (Macro md new_args, st')))"

text \<open>
  \<^verbatim>\<open>blastenv::to_state\<close>. A goal is its hypotheses in order, each a local constant
  with its name, its pretty name and its type, and the target. \<open>nrm\<close> is the
  normalizer \<^verbatim>\<open>normalize\<close> (a collaborator). The state starts empty and the maps as the engine
  holds them.
\<close>

record goal =
  g_hyps :: "(name \<times> name \<times> expr) list"
  g_type :: expr

fun to_state_hyps ::
  "nat \<Rightarrow> (expr \<Rightarrow> expr) \<Rightarrow> (expr \<Rightarrow> expr) \<Rightarrow> (name \<times> name \<times> expr) list \<Rightarrow> (name \<rightharpoonup> expr)
     \<Rightarrow> 'ps to_blast_env \<Rightarrow> error + (name \<rightharpoonup> expr) \<times> 'ps to_blast_env" where
  "to_state_hyps fuel nrm infer [] l2h st = Inr (l2h, st)"
| "to_state_hyps fuel nrm infer ((n, pp, ty) # hs) l2h st =
     (case visit fuel \<lparr>cfg_infer = infer, cfg_local2href = l2h\<rparr> (nrm ty) st of
        Inl err \<Rightarrow> Inl err
      | Inr (new_type, st1) \<Rightarrow>
         (case mk_hypothesis pp new_type (Local n) st1 of
            (href, st2) \<Rightarrow> to_state_hyps fuel nrm infer hs (l2h(n \<mapsto> href)) st2))"

definition to_state ::
  "nat \<Rightarrow> (expr \<Rightarrow> expr) \<Rightarrow> (expr \<Rightarrow> expr) \<Rightarrow> goal \<Rightarrow> 'ps to_blast_env \<Rightarrow> error + 'ps to_blast_env" where
  "to_state fuel nrm infer g st =
     (case to_state_hyps fuel nrm infer (g_hyps g) Map.empty st of
        Inl err \<Rightarrow> Inl err
      | Inr (l2h, st1) \<Rightarrow>
         (case visit fuel \<lparr>cfg_infer = infer, cfg_local2href = l2h\<rparr> (nrm (g_type g)) st1 of
            Inl err \<Rightarrow> Inl err
          | Inr (new_target, st2) \<Rightarrow>
              Inr (st2\<lparr>tb_state := (tb_state st2)\<lparr>m_target := new_target\<rparr>\<rparr>)))"

text \<open>The environment of a fresh engine: an empty state, empty maps, counters at 0.\<close>

definition empty_state :: "'ps state" where
  "empty_state = \<lparr>m_hyps = Map.empty, m_metavar_decls = Map.empty, m_uassignment = [],
     m_eassignment = [], m_target = Var 0, m_proof_steps = []\<rparr>"

definition init_to_blast_env :: "'ps to_blast_env" where
  "init_to_blast_env = \<lparr>tb_state = empty_state, tb_uvar2uref = Map.empty,
     tb_mvar2meta_mref = Map.empty, tb_next_uref = 0, tb_next_mref = 0, tb_next_href = 0\<rparr>"

text \<open>
  The claim's reading of a second encounter: the arguments \<open>ds\<close> recorded for the
  metavariable match the new arguments \<open>as\<close> position by position, with the same local
  constant (by name) where a local constant was recorded and the same expression
  elsewhere.
\<close>

definition prefix_matches :: "expr list \<Rightarrow> expr list \<Rightarrow> bool" where
  "prefix_matches ds as \<longleftrightarrow>
     length ds \<le> length as
   \<and> (\<forall>i < length ds.
         if is_local (ds ! i) then is_local (as ! i) \<and> mlocal_name (as ! i) = mlocal_name (ds ! i)
         else as ! i = ds ! i)"


text \<open>
  The arguments \<open>args\<close>, after the earlier ones \<open>prev\<close>, on which the scan applies
  \<^verbatim>\<open>mlocal_name\<close> within its contract: among the arguments before the first one that
  is not closed, a local constant comes after local constants and metavariables only.
\<close>

fun mlocal_contract_kept :: "expr list \<Rightarrow> expr list \<Rightarrow> bool" where
  "mlocal_contract_kept prev [] = True"
| "mlocal_contract_kept prev (a # as) =
     (\<not> closed a
      \<or> ((is_local a \<longrightarrow> list_all (\<lambda>p. is_local p \<or> is_metavar p) prev)
         \<and> mlocal_contract_kept (prev @ [a]) as))"

section \<open>Externalization\<close>

text \<open>
  Modelled from the spec: \<^verbatim>\<open>instantiate_urefs_mrefs\<close> of \<^verbatim>\<open>blast/state.h\<close> substitutes
  the assigned metavariables and universe metavariables throughout an expression, and
  again in what it has substituted. A reference without an assignment stays. The
  recursion through the assignments is bounded by fuel; \<open>None\<close> is a run that needs
  more.
\<close>

primrec instantiate_urefs :: "nat \<Rightarrow> 'ps state \<Rightarrow> level \<Rightarrow> level option" where
  "instantiate_urefs 0 s l = None"
| "instantiate_urefs (Suc n) s l =
     (case l of
        LSucc a \<Rightarrow> map_option LSucc (instantiate_urefs n s a)
      | LMax a b \<Rightarrow>
          (case instantiate_urefs n s a of
             None \<Rightarrow> None
           | Some a' \<Rightarrow> map_option (LMax a') (instantiate_urefs n s b))
      | LIMax a b \<Rightarrow>
          (case instantiate_urefs n s a of
             None \<Rightarrow> None
           | Some a' \<Rightarrow> map_option (LIMax a') (instantiate_urefs n s b))
      | LMeta nm \<Rightarrow>
          (case get_uref_assignment s l of
             None \<Rightarrow> Some l
           | Some v \<Rightarrow> instantiate_urefs n s v)
      | _ \<Rightarrow> Some l)"

primrec instantiate_urefs_mrefs :: "nat \<Rightarrow> 'ps state \<Rightarrow> expr \<Rightarrow> expr option" where
  "instantiate_urefs_mrefs 0 s e = None"
| "instantiate_urefs_mrefs (Suc n) s e =
     (case e of
        Var i \<Rightarrow> Some e
      | Sort l \<Rightarrow> map_option Sort (instantiate_urefs n s l)
      | Constant c ls \<Rightarrow> map_option (Constant c) (those (map (instantiate_urefs n s) ls))
      | Meta nm \<Rightarrow>
          (case get_mref_assignment s e of
             None \<Rightarrow> Some e
           | Some v \<Rightarrow> instantiate_urefs_mrefs n s v)
      | Local nm \<Rightarrow> Some e
      | App f a \<Rightarrow>
          (case instantiate_urefs_mrefs n s f of
             None \<Rightarrow> None
           | Some f' \<Rightarrow> map_option (App f') (instantiate_urefs_mrefs n s a))
      | Lam bn d b bi \<Rightarrow>
          (case instantiate_urefs_mrefs n s d of
             None \<Rightarrow> None
           | Some d' \<Rightarrow> map_option (\<lambda>b'. Lam bn d' b' bi) (instantiate_urefs_mrefs n s b))
      | Pi bn d b bi \<Rightarrow>
          (case instantiate_urefs_mrefs n s d of
             None \<Rightarrow> None
           | Some d' \<Rightarrow> map_option (\<lambda>b'. Pi bn d' b' bi) (instantiate_urefs_mrefs n s b))
      | Macro md args \<Rightarrow> map_option (Macro md) (those (map (instantiate_urefs_mrefs n s) args)))"

text \<open>Mapping a function that may fail over a list, first to last.\<close>

fun map_err :: "('a \<Rightarrow> error + 'b) \<Rightarrow> 'a list \<Rightarrow> error + 'b list" where
  "map_err f [] = Inr []"
| "map_err f (x # xs) =
     (case f x of
        Inl err \<Rightarrow> Inl err
      | Inr y \<Rightarrow> (case map_err f xs of Inl err \<Rightarrow> Inl err | Inr ys \<Rightarrow> Inr (y # ys)))"

text \<open>
  Modelled from the spec: \<^verbatim>\<open>replace_visitor::visit_meta\<close> and
  \<^verbatim>\<open>replace_visitor::visit_local\<close> (\<^verbatim>\<open>library/replace_visitor.h\<close> is not among the
  sources). The constructors that the externalizer does not treat itself are
  reconstructed as they are: the base visitor rebuilds the local constant or
  metavariable it is given. Given an expression of another kind it is outside its
  contract.
\<close>

definition visit_mlocal :: "expr \<Rightarrow> error + expr" where
  "visit_mlocal e = (if is_local e \<or> is_metavar e then Inr e else Inl Assertion_violated)"

text \<open>
  \<^verbatim>\<open>to_tactic_proof_fn\<close>: the visitor over the proof term, dispatching on the kind of
  expression as \<^verbatim>\<open>replace_visitor::visit\<close> does. The cases for local constants and
  metavariables are \<^verbatim>\<open>visit_local\<close> and \<^verbatim>\<open>visit_meta\<close> of the source; the others are
  the base visitor's. The recursion through the values of hypotheses is bounded by
  fuel.
\<close>

primrec tp_visit :: "nat \<Rightarrow> 'ps state \<Rightarrow> expr \<Rightarrow> error + expr" where
  "tp_visit 0 s e = Inl Out_of_fuel"
| "tp_visit (Suc n) s e =
     (case e of
        Var i \<Rightarrow> Inr e
      | Sort l \<Rightarrow> Inr e
      | Constant c ls \<Rightarrow> Inr e
      | Meta nm \<Rightarrow>
          (if \<not> is_mref e then Inl Assertion_violated
           else
             (case instantiate_urefs_mrefs n s e of
                None \<Rightarrow> Inl Out_of_fuel
              | Some v \<Rightarrow> if v = e then Inr v else visit_mlocal v))
      | Local nm \<Rightarrow>
          (if is_href e then
             (case get_hypothesis_decl s e of
                None \<Rightarrow> Inl Assertion_violated
              | Some h \<Rightarrow>
                 (case h_value h of
                    Some r \<Rightarrow> tp_visit n s r
                  | None \<Rightarrow> visit_mlocal e))
           else visit_mlocal e)
      | App f a \<Rightarrow>
          (case tp_visit n s f of
             Inl err \<Rightarrow> Inl err
           | Inr f' \<Rightarrow> (case tp_visit n s a of Inl err \<Rightarrow> Inl err | Inr a' \<Rightarrow> Inr (App f' a')))
      | Lam bn d b bi \<Rightarrow>
          (case tp_visit n s d of
             Inl err \<Rightarrow> Inl err
           | Inr d' \<Rightarrow> (case tp_visit n s b of Inl err \<Rightarrow> Inl err | Inr b' \<Rightarrow> Inr (Lam bn d' b' bi)))
      | Pi bn d b bi \<Rightarrow>
          (case tp_visit n s d of
             Inl err \<Rightarrow> Inl err
           | Inr d' \<Rightarrow> (case tp_visit n s b of Inl err \<Rightarrow> Inl err | Inr b' \<Rightarrow> Inr (Pi bn d' b' bi)))
      | Macro md args \<Rightarrow>
          (case map_err (tp_visit n s) args of
             Inl err \<Rightarrow> Inl err
           | Inr new_args \<Rightarrow> Inr (Macro md new_args)))"

definition to_tactic_proof :: "nat \<Rightarrow> 'ps state \<Rightarrow> expr \<Rightarrow> error + expr" where
  "to_tactic_proof fuel s pr = tp_visit fuel s pr"

text \<open>
  The proof term with each hypothesis reference replaced by what \<open>f\<close> gives for its
  index, and the nesting depth of an expression.
\<close>

fun replace_hrefs :: "(nat \<Rightarrow> expr) \<Rightarrow> expr \<Rightarrow> expr" where
  "replace_hrefs f (Local (Href_name i)) = f i"
| "replace_hrefs f (App g a) = App (replace_hrefs f g) (replace_hrefs f a)"
| "replace_hrefs f (Lam bn d b bi) = Lam bn (replace_hrefs f d) (replace_hrefs f b) bi"
| "replace_hrefs f (Pi bn d b bi) = Pi bn (replace_hrefs f d) (replace_hrefs f b) bi"
| "replace_hrefs f (Macro md args) = Macro md (map (replace_hrefs f) args)"
| "replace_hrefs f e = e"

fun expr_depth :: "expr \<Rightarrow> nat" where
  "expr_depth (App g a) = Suc (max (expr_depth g) (expr_depth a))"
| "expr_depth (Lam bn d b bi) = Suc (max (expr_depth d) (expr_depth b))"
| "expr_depth (Pi bn d b bi) = Suc (max (expr_depth d) (expr_depth b))"
| "expr_depth (Macro md args) = Suc (fold max (map expr_depth args) 0)"
| "expr_depth e = 0"

text \<open>The external local constant recorded as the value of hypothesis \<open>i\<close>, if that
  is what the hypothesis holds.\<close>

definition recorded_local :: "'ps state \<Rightarrow> nat \<Rightarrow> expr option" where
  "recorded_local s i =
     (case m_hyps s i of
        None \<Rightarrow> None
      | Some h \<Rightarrow>
         (case h_value h of
            None \<Rightarrow> None
          | Some v \<Rightarrow> if is_local v \<and> \<not> is_href v then Some v else None))"

section \<open>Concrete inputs\<close>

text \<open>Small states and engines on which the theorems below are instantiated.\<close>

definition ex_state :: "nat state" where
  "ex_state = \<lparr>m_hyps = Map.empty, m_metavar_decls = Map.empty, m_uassignment = [],
     m_eassignment = [(0, Sort LZero)], m_target = Sort LZero, m_proof_steps = []\<rparr>"

definition ex_env :: "nat blastenv" where
  "ex_env = \<lparr>m_curr_state = ex_state, m_choice_points = [], m_max_depth = 128,
     m_init_depth = 1, m_inc_depth = 5, m_stack = []\<rparr>"

text \<open>Two metavariables: \<open>?0\<close> with context \<open>{0}\<close> and \<open>?1\<close> with context \<open>{0, 1}\<close>;
  two hypotheses; nothing assigned.\<close>

definition va_state :: "nat state" where
  "va_state = \<lparr>m_hyps = [0 \<mapsto> \<lparr>h_name = Name ''h0'', h_type = Sort LZero, h_value = None\<rparr>,
                          1 \<mapsto> \<lparr>h_name = Name ''h1'', h_type = Sort LZero, h_value = None\<rparr>],
     m_metavar_decls = [0 \<mapsto> \<lparr>md_type = Sort LZero, md_context = {0}\<rparr>,
                        1 \<mapsto> \<lparr>md_type = Sort LZero, md_context = {0, 1}\<rparr>],
     m_uassignment = [], m_eassignment = [], m_target = Sort LZero, m_proof_steps = []\<rparr>"

definition va_env :: "nat blastenv" where
  "va_env = \<lparr>m_curr_state = va_state, m_choice_points = [], m_max_depth = 128,
     m_init_depth = 1, m_inc_depth = 5, m_stack = []\<rparr>"

text \<open>
  Proof steps for the examples are numbers: step \<open>0\<close> never accepts a proof, a step
  \<open>n > 0\<close> wraps the proof into an application of the constant \<open>step\<close>. No action
  applies, nothing is introduced or activated.
\<close>

definition ex_step_resolve :: "nat \<Rightarrow> nat state \<Rightarrow> expr \<Rightarrow> expr option \<times> nat state" where
  "ex_step_resolve p s pr =
     (if p = 0 then (None, s) else (Some (App (Constant (Name ''step'') []) pr), s))"

definition ex_actions :: "nat actions" where
  "ex_actions = \<lparr>intros_action = (\<lambda>s. (False, s)),
                  activate_hypothesis = (\<lambda>s. (None, s)),
                  assumption_action = (\<lambda>s. (None, s)),
                  step_resolve = ex_step_resolve\<rparr>"

definition ex_stack_env :: "nat list \<Rightarrow> nat blastenv" where
  "ex_stack_env ps = ex_env\<lparr>m_curr_state := ex_state\<lparr>m_proof_steps := ps\<rparr>\<rparr>"

text \<open>Engines for the search: depths \<open>1, 6, 11\<close> under the bound \<open>12\<close>; the same
  with the largest bound an \<^verbatim>\<open>unsigned\<close> holds and increment \<open>1\<close>; and with
  increment \<open>0\<close>. \<open>ex_closing_actions\<close> close the goal at once by hypothesis \<open>0\<close>.\<close>

definition ex_search_env :: "nat blastenv" where
  "ex_search_env = \<lparr>m_curr_state = ex_state, m_choice_points = [], m_max_depth = 12,
     m_init_depth = 1, m_inc_depth = 5, m_stack = []\<rparr>"

definition ex_wrap_env :: "nat blastenv" where
  "ex_wrap_env = \<lparr>m_curr_state = ex_state, m_choice_points = [], m_max_depth = 0xFFFFFFFF,
     m_init_depth = 1, m_inc_depth = 1, m_stack = []\<rparr>"

text \<open>Engines whose depth does not get beyond the bound: with increment \<open>0\<close> the
  depth stays at \<open>1\<close>; with increment \<open>2\<^sup>3\<^sup>1\<close> and the largest bound it alternates
  between \<open>0\<close> and \<open>2\<^sup>3\<^sup>1\<close>.\<close>

definition ex_stuck_env :: "nat blastenv" where
  "ex_stuck_env = \<lparr>m_curr_state = ex_state, m_choice_points = [], m_max_depth = 12,
     m_init_depth = 1, m_inc_depth = 0, m_stack = []\<rparr>"

definition ex_cycle_env :: "nat blastenv" where
  "ex_cycle_env = \<lparr>m_curr_state = ex_state, m_choice_points = [], m_max_depth = 0xFFFFFFFF,
     m_init_depth = 0, m_inc_depth = 0x80000000, m_stack = []\<rparr>"

definition ex_closing_actions :: "nat actions" where
  "ex_closing_actions = \<lparr>intros_action = (\<lambda>s. (False, s)),
                  activate_hypothesis = (\<lambda>s. (None, s)),
                  assumption_action = (\<lambda>s. (Some (mk_href 0), s)),
                  step_resolve = ex_step_resolve\<rparr>"

text \<open>
  Goals with the hypotheses \<open>x : A\<close> and \<open>y : A\<close>. The targets are \<open>?m (f x)\<close>, whose
  only argument is not a local constant; \<open>?m (f x) x\<close>; \<open>?m x x\<close>, whose arguments are
  not distinct; and \<open>g (?m x) (?m y)\<close>. The type checker answers \<open>Prop\<close> for every
  metavariable application, the normalizer leaves the types as they are.
\<close>

definition ex_hyps :: "(name \<times> name \<times> expr) list" where
  "ex_hyps = [(Name ''x'', Name ''x'', Constant (Name ''A'') []),
              (Name ''y'', Name ''y'', Constant (Name ''A'') [])]"

definition ex_fx :: expr where
  "ex_fx = App (Constant (Name ''f'') []) (Local (Name ''x''))"


definition ex_goal_m_fx_x :: goal where
  "ex_goal_m_fx_x = \<lparr>g_hyps = ex_hyps, g_type = App (App (Meta (Name ''m'')) ex_fx) (Local (Name ''x''))\<rparr>"


definition ex_goal_mx_my :: goal where
  "ex_goal_mx_my =
     \<lparr>g_hyps = ex_hyps,
       g_type = App (App (Constant (Name ''g'') []) (App (Meta (Name ''m'')) (Local (Name ''x''))))
                    (App (Meta (Name ''m'')) (Local (Name ''y'')))\<rparr>"

definition ex_infer :: "expr \<Rightarrow> expr" where
  "ex_infer e = Sort LZero"

definition ex_nrm :: "expr \<Rightarrow> expr" where
  "ex_nrm e = e"

definition ex_cfg :: to_blast_cfg where
  "ex_cfg = \<lparr>cfg_infer = ex_infer,
              cfg_local2href = [Name ''x'' \<mapsto> mk_href 0, Name ''y'' \<mapsto> mk_href 1]\<rparr>"

text \<open>The environment in which \<open>?m x\<close> has been met: \<open>?m\<close> is recorded with that
  application and the reference \<open>?0\<close>.\<close>

definition ex_seen_env :: "nat to_blast_env" where
  "ex_seen_env = init_to_blast_env
     \<lparr>tb_mvar2meta_mref := [Name ''m'' \<mapsto> (App (Meta (Name ''m'')) (Local (Name ''x'')), mk_mref 0)],
      tb_next_mref := 1\<rparr>"

text \<open>The goal with hypotheses \<open>x : A\<close>, \<open>y : A\<close> and target \<open>?m x\<close>, and the proof
  term \<open>\<lambda>h : ?0. k h\<^sub>0 h\<close> over the state it is internalized to.\<close>

definition ex_goal_mx :: goal where
  "ex_goal_mx = \<lparr>g_hyps = ex_hyps, g_type = App (Meta (Name ''m'')) (Local (Name ''x''))\<rparr>"

definition ex_proof :: expr where
  "ex_proof = Lam (Name ''h'') (mk_mref 0)
                (App (App (Constant (Name ''k'') []) (mk_href 0)) (Var 0)) Binder_default"

text \<open>A state with the input hypothesis \<open>h\<^sub>0\<close>, recorded with the external local
  constant \<open>x\<close>, and the hypothesis \<open>h\<^sub>1\<close> with the value \<open>g h\<^sub>0\<close>.\<close>

definition ex_ext_state :: "nat state" where
  "ex_ext_state = \<lparr>m_hyps =
       [0 \<mapsto> \<lparr>h_name = Name ''x'', h_type = Constant (Name ''A'') [],
                 h_value = Some (Local (Name ''x''))\<rparr>,
        1 \<mapsto> \<lparr>h_name = Name ''d'', h_type = Constant (Name ''A'') [],
                 h_value = Some (App (Constant (Name ''g'') []) (mk_href 0))\<rparr>],
     m_metavar_decls = Map.empty, m_uassignment = [], m_eassignment = [],
     m_target = Constant (Name ''A'') [], m_proof_steps = []\<rparr>"

text \<open>The proof term \<open>k ?0 h\<^sub>0\<close>: the hypothesis reference \<open>h\<^sub>0\<close> stands in it, and
  once more in the value of \<open>?0\<close> when \<open>?0\<close> is assigned \<open>h\<^sub>0\<close>.\<close>

definition ex_assigned_proof :: expr where
  "ex_assigned_proof = App (App (Constant (Name ''k'') []) (mk_mref 0)) (mk_href 0)"

text \<open>Under two binders: \<open>k (?m x #0) (?m x #1)\<close>. Both applications have the closed
  prefix \<open>x\<close>; they differ in the argument after it.\<close>

definition ex_two_apps :: expr where
  "ex_two_apps =
     App (App (Constant (Name ''k'') [])
            (App (App (Meta (Name ''m'')) (Local (Name ''x''))) (Var 0)))
         (App (App (Meta (Name ''m'')) (Local (Name ''x''))) (Var 1))"

section \<open>Properties\<close>

subsection \<open>Assignment snapshots\<close>

lemma restore_save_assignment:
  "restore_assignment s (save_assignment s) = s"
  by (simp add: restore_assignment_def save_assignment_def)

lemma tctx_update_assignments_frame:
  "m_stack (tctx_update_assignments as b) = m_stack b
   \<and> m_choice_points (tctx_update_assignments as b) = m_choice_points b
   \<and> m_max_depth (tctx_update_assignments as b) = m_max_depth b
   \<and> m_init_depth (tctx_update_assignments as b) = m_init_depth b
   \<and> m_inc_depth (tctx_update_assignments as b) = m_inc_depth b
   \<and> blastenv.more (tctx_update_assignments as b) = blastenv.more b"
  by (induction as arbitrary: b) (auto simp: tctx_update_assignment_def)

lemma tctx_update_assignments_state:
  "\<exists>xs. m_curr_state (tctx_update_assignments as b) =
         (m_curr_state b)\<lparr>m_eassignment := m_eassignment (m_curr_state b) @ xs\<rparr>"
proof (induction as arbitrary: b)
  case Nil
  have "m_curr_state b = (m_curr_state b)\<lparr>m_eassignment := m_eassignment (m_curr_state b) @ []\<rparr>"
    by simp
  then show ?case by (metis tctx_update_assignments.simps(1))
next
  case (Cons a as)
  obtain m v where a: "a = (m, v)" by (cases a)
  let ?b1 = "tctx_update_assignment m v b"
  from Cons.IH [of ?b1] obtain xs where
    xs: "m_curr_state (tctx_update_assignments as ?b1) =
         (m_curr_state ?b1)\<lparr>m_eassignment := m_eassignment (m_curr_state ?b1) @ xs\<rparr>"
    by blast
  show ?case
  proof (cases "mref_index m")
    case None
    then have "m_curr_state ?b1 = m_curr_state b"
      by (simp add: tctx_update_assignment_def assign_mref_def)
    with xs a show ?thesis by auto
  next
    case (Some i)
    then have "m_curr_state ?b1 =
        (m_curr_state b)\<lparr>m_eassignment := m_eassignment (m_curr_state b) @ [(i, v)]\<rparr>"
      by (simp add: tctx_update_assignment_def assign_mref_def)
    with xs a have "m_curr_state (tctx_update_assignments (a # as) b) =
        (m_curr_state b)\<lparr>m_eassignment := m_eassignment (m_curr_state b) @ ((i, v) # xs)\<rparr>"
      by simp
    then show ?thesis by blast
  qed
qed

lemma tctx_pop_after_assignments:
  "tctx_pop (tctx_update_assignments as (tctx_push b)) = Some b"
proof -
  let ?b1 = "tctx_push b"
  let ?b2 = "tctx_update_assignments as ?b1"
  obtain xs where xs: "m_curr_state ?b2 =
      (m_curr_state ?b1)\<lparr>m_eassignment := m_eassignment (m_curr_state ?b1) @ xs\<rparr>"
    using tctx_update_assignments_state [of as ?b1] by blast
  have st: "m_stack ?b2 = m_stack b @ [save_assignment (m_curr_state b)]"
    using tctx_update_assignments_frame [of as ?b1] by (simp add: tctx_push_def)
  have fr: "m_choice_points ?b2 = m_choice_points b" "m_max_depth ?b2 = m_max_depth b"
    "m_init_depth ?b2 = m_init_depth b" "m_inc_depth ?b2 = m_inc_depth b"
    "blastenv.more ?b2 = blastenv.more b"
    using tctx_update_assignments_frame [of as ?b1] by (simp_all add: tctx_push_def)
  have cs: "m_curr_state ?b1 = m_curr_state b" by (simp add: tctx_push_def)
  have "restore_assignment (m_curr_state ?b2) (save_assignment (m_curr_state b)) = m_curr_state b"
    unfolding xs cs by (simp add: restore_assignment_def save_assignment_def)
  then show ?thesis
    using st fr by (simp add: tctx_pop_def)
qed

text \<open>
  C8. Assignment snapshots of the type context round-trip and nest: \<open>push\<close> followed
  at once by \<open>pop\<close> gives back the engine it started from; so does \<open>push\<close>, any run
  of assignments, \<open>pop\<close>, hence every metavariable of the run that had no assignment
  before the \<open>push\<close> has none after the \<open>pop\<close>; and \<open>push; push; pop; pop\<close> gives
  back the engine before the outer \<open>push\<close>.
\<close>

theorem tctx_snapshots_roundtrip:
  "tctx_pop (tctx_push b) = Some b
   \<and> tctx_pop (tctx_update_assignments as (tctx_push b)) = Some b
   \<and> (\<forall>(m, v) \<in> set as. tctx_get_assignment b m = None \<longrightarrow>
        (\<exists>b'. tctx_pop (tctx_update_assignments as (tctx_push b)) = Some b'
              \<and> tctx_get_assignment b' m = None))
   \<and> Option.bind (tctx_pop (tctx_push (tctx_push b))) tctx_pop = Some b"
proof -
  have p: "\<And>c. tctx_pop (tctx_push c) = Some c"
    using tctx_pop_after_assignments [of "[]"] by simp
  have a: "tctx_pop (tctx_update_assignments as (tctx_push b)) = Some b"
    by (rule tctx_pop_after_assignments)
  show ?thesis using p a by auto
qed

theorem tctx_snapshots_roundtrip_witness:
  "tctx_get_assignment ex_env (mk_mref 1) = None
   \<and> tctx_get_assignment ex_env (mk_mref 2) = None
   \<and> tctx_get_assignment
        (tctx_update_assignments [(mk_mref 1, Var 0), (mk_mref 2, mk_mref 1)] (tctx_push ex_env))
        (mk_mref 2) = Some (mk_mref 1)
   \<and> tctx_pop (tctx_update_assignments [(mk_mref 1, Var 0), (mk_mref 2, mk_mref 1)] (tctx_push ex_env))
       = Some ex_env
   \<and> Option.bind (tctx_pop (tctx_push (tctx_push ex_env))) tctx_pop = Some ex_env"
proof -
  have 1: "tctx_get_assignment ex_env (mk_mref 1) = None"
    by (simp add: tctx_get_assignment_def get_mref_assignment_def ex_env_def ex_state_def mk_mref_def)
  have 2: "tctx_get_assignment ex_env (mk_mref 2) = None"
    by (simp add: tctx_get_assignment_def get_mref_assignment_def ex_env_def ex_state_def mk_mref_def)
  have 3: "tctx_get_assignment
        (tctx_update_assignments [(mk_mref 1, Var 0), (mk_mref 2, mk_mref 1)] (tctx_push ex_env))
        (mk_mref 2) = Some (mk_mref 1)"
    by (simp add: tctx_get_assignment_def get_mref_assignment_def ex_env_def ex_state_def mk_mref_def
        tctx_push_def tctx_update_assignment_def assign_mref_def)
  show ?thesis
    using 1 2 3 tctx_snapshots_roundtrip [of ex_env "[(mk_mref 1, Var 0), (mk_mref 2, mk_mref 1)]"]
    by simp
qed

subsection \<open>Assignment validation\<close>

lemma self_in_subterms [simp]: "e \<in> subterms e"
  by (cases e) auto

lemma validate_step_failed:
  "validate_step d m locals e (False, s) = (False, (False, s))"
  by (simp add: validate_step_def)

lemma for_each_failed:
  "for_each (validate_step d m locals) e (False, s) = (False, s)"
  by (cases e) (simp_all add: validate_step_failed)

lemma fold_for_each_failed:
  "fold (for_each (validate_step d m locals)) es (False, s) = (False, s)"
  by (induction es) (simp_all add: for_each_failed)

lemma is_href_not_mref: "is_href e \<Longrightarrow> \<not> is_mref e"
  by (cases e) auto

lemma is_local_not_mref: "is_local e \<Longrightarrow> \<not> is_mref e"
  by (cases e) auto

lemma is_href_is_local: "is_href e \<Longrightarrow> is_local e"
  by (cases e rule: is_href.cases) auto

lemma validate_step_leaf_ok:
  "fst (snd (validate_step d m locals e (True, s))) = (\<not> va_bad d m locals e)"
  by (auto simp: validate_step_def va_bad_def list_all_iff is_href_not_mref is_local_not_mref
      is_href_is_local)

lemma validate_step_inner:
  "\<not> is_local e \<Longrightarrow> \<not> is_metavar e \<Longrightarrow> validate_step d m locals e (True, s) = (True, (True, s))"
  by (cases e rule: is_href.cases) (auto simp: validate_step_def)

lemma va_bad_inner:
  "\<not> is_local e \<Longrightarrow> \<not> is_metavar e \<Longrightarrow> \<not> va_bad d m locals e"
  by (cases e rule: is_href.cases) (auto simp: va_bad_def)

lemma for_each_seq_ok:
  assumes "\<And>s :: 'ps state. fst (for_each (validate_step d m locals) e1 (True, s)) = P1"
    and "\<And>s :: 'ps state. fst (for_each (validate_step d m locals) e2 (True, s)) = P2"
  shows "fst (for_each (validate_step d m locals) e2
               (for_each (validate_step d m locals) e1 (True, s :: 'ps state))) = (P1 \<and> P2)"
proof -
  obtain ok1 s1 where r1: "for_each (validate_step d m locals) e1 (True, s) = (ok1, s1)"
    by (cases "for_each (validate_step d m locals) e1 (True, s)")
  have ok1: "ok1 = P1" using assms(1) [of s] r1 by simp
  show ?thesis
  proof (cases ok1)
    case True
    then show ?thesis using r1 ok1 assms(2) [of s1] by simp
  next
    case False
    then have "for_each (validate_step d m locals) e2
               (for_each (validate_step d m locals) e1 (True, s)) = (False, s1)"
      using r1 by (simp add: for_each_failed)
    then show ?thesis using False ok1 by simp
  qed
qed

lemma fold_for_each_ok:
  assumes "\<And>a (s :: 'ps state). a \<in> set es \<Longrightarrow>
             fst (for_each (validate_step d m locals) a (True, s)) = P a"
  shows "fst (fold (for_each (validate_step d m locals)) es (ok, s :: 'ps state))
           = (ok \<and> (\<forall>a \<in> set es. P a))"
  using assms
proof (induction es arbitrary: ok s)
  case Nil
  then show ?case by simp
next
  case (Cons a es)
  show ?case
  proof (cases ok)
    case False
    then show ?thesis by (simp add: for_each_failed fold_for_each_failed)
  next
    case True
    obtain ok1 s1 where r1: "for_each (validate_step d m locals) a (True, s) = (ok1, s1)"
      by (cases "for_each (validate_step d m locals) a (True, s)")
    have ok1: "ok1 = P a" using Cons.prems [of a s] r1 by simp
    have "fst (fold (for_each (validate_step d m locals)) es (ok1, s1))
            = (ok1 \<and> (\<forall>a \<in> set es. P a))"
      by (rule Cons.IH) (simp add: Cons.prems)
    then show ?thesis using r1 ok1 True by simp
  qed
qed

lemma for_each_ok:
  "fst (for_each (validate_step d m locals) e (True, s :: 'ps state))
     = (\<forall>x \<in> subterms e. \<not> va_bad d m locals x)"
proof (induction e arbitrary: s)
  case (App f a)
  have "fst (for_each (validate_step d m locals) a (for_each (validate_step d m locals) f (True, s)))
      = ((\<forall>x \<in> subterms f. \<not> va_bad d m locals x) \<and> (\<forall>x \<in> subterms a. \<not> va_bad d m locals x))"
    by (rule for_each_seq_ok) (rule App.IH)+
  then show ?case
    by (simp add: validate_step_inner va_bad_inner ball_Un)
next
  case (Lam n dm b bi)
  have "fst (for_each (validate_step d m locals) b (for_each (validate_step d m locals) dm (True, s)))
      = ((\<forall>x \<in> subterms dm. \<not> va_bad d m locals x) \<and> (\<forall>x \<in> subterms b. \<not> va_bad d m locals x))"
    by (rule for_each_seq_ok) (rule Lam.IH)+
  then show ?case
    by (simp add: validate_step_inner va_bad_inner ball_Un)
next
  case (Pi n dm b bi)
  have "fst (for_each (validate_step d m locals) b (for_each (validate_step d m locals) dm (True, s)))
      = ((\<forall>x \<in> subterms dm. \<not> va_bad d m locals x) \<and> (\<forall>x \<in> subterms b. \<not> va_bad d m locals x))"
    by (rule for_each_seq_ok) (rule Pi.IH)+
  then show ?case
    by (simp add: validate_step_inner va_bad_inner ball_Un)
next
  case (Macro dn args)
  have "fst (fold (for_each (validate_step d m locals)) args (True, s))
      = (True \<and> (\<forall>a \<in> set args. \<forall>x \<in> subterms a. \<not> va_bad d m locals x))"
    by (rule fold_for_each_ok) (rule Macro.IH)
  then show ?case
    by (simp add: validate_step_inner va_bad_inner)
qed (simp_all add: validate_step_leaf_ok)

lemma narrowed_decl_idem: "narrowed_decl d (narrowed_decl d d') = narrowed_decl d d'"
  by (simp add: narrowed_decl_def Int_assoc)

lemma mref_occs_simps:
  "mref_occs (App f a) = mref_occs f \<union> mref_occs a"
  "mref_occs (Lam n dm b bi) = mref_occs dm \<union> mref_occs b"
  "mref_occs (Pi n dm b bi) = mref_occs dm \<union> mref_occs b"
  "mref_occs (Macro dn args) = (\<Union>a \<in> set args. mref_occs a)"
  "mref_occs (Var k) = {}"
  "mref_occs (Sort l) = {}"
  "mref_occs (Constant c ls) = {}"
  "mref_occs (Local nm) = {}"
  "mref_occs (Meta nm) = (case nm of Mref_name i \<Rightarrow> {i} | _ \<Rightarrow> {})"
  by (auto simp: mref_occs_def mk_mref_def split: name.splits)

lemma va_inv_restrict:
  assumes inv: "va_inv d j V s0 s" and ij: "i \<noteq> j"
  shows "va_inv d j (insert i V) s0
           (case restrict_mref_context_using (Meta (Mref_name i)) (Meta (Mref_name j)) s of
              None \<Rightarrow> s | Some s' \<Rightarrow> s')"
proof (cases "map_of (rev (m_eassignment s0)) i")
  case None
  then have un: "get_mref_assignment s (Meta (Mref_name i)) = None"
    using inv by (simp add: get_mref_assignment_def va_inv_def)
  have dj: "get_metavar_decl s (Meta (Mref_name j)) = Some d"
    using inv by (simp add: get_metavar_decl_def va_inv_def)
  have ei: "m_metavar_decls s i =
      (if i \<in> V then map_option (narrowed_decl d) (m_metavar_decls s0 i) else m_metavar_decls s0 i)"
    using inv None by (simp add: va_inv_def)
  show ?thesis
  proof (cases "m_metavar_decls s i")
    case N: None
    then have "restrict_mref_context_using (Meta (Mref_name i)) (Meta (Mref_name j)) s = None"
      by (simp add: restrict_mref_context_using_def)
    moreover have "m_metavar_decls s0 i = None" using N ei by (simp split: if_splits)
    ultimately show ?thesis using inv N unfolding va_inv_def by auto
  next
    case (Some d')
    then have r: "restrict_mref_context_using (Meta (Mref_name i)) (Meta (Mref_name j)) s
        = Some (s\<lparr>m_metavar_decls := (m_metavar_decls s)(i \<mapsto> narrowed_decl d d')\<rparr>)"
      using un dj by (simp add: restrict_mref_context_using_def narrowed_decl_def Let_def)
    have "narrowed_decl d d' = the (map_option (narrowed_decl d) (m_metavar_decls s0 i))"
         "m_metavar_decls s0 i \<noteq> None"
      using Some ei by (auto simp: narrowed_decl_idem split: if_splits)
    then have "map_option (narrowed_decl d) (m_metavar_decls s0 i) = Some (narrowed_decl d d')"
      by auto
    then show ?thesis using inv ij r unfolding va_inv_def by auto
  qed
next
  case (Some v')
  have "\<exists>dd. (case restrict_mref_context_using (Meta (Mref_name i)) (Meta (Mref_name j)) s of
              None \<Rightarrow> s | Some s' \<Rightarrow> s') = s
        \<or> (case restrict_mref_context_using (Meta (Mref_name i)) (Meta (Mref_name j)) s of
              None \<Rightarrow> s | Some s' \<Rightarrow> s') = s\<lparr>m_metavar_decls := (m_metavar_decls s)(i \<mapsto> dd)\<rparr>"
    by (auto simp: restrict_mref_context_using_def Let_def split: option.splits)
  then show ?thesis using inv ij Some unfolding va_inv_def by auto
qed

lemma va_inv_leaf:
  assumes inv: "va_inv d j V s0 s"
    and ok: "fst (snd (validate_step d (Meta (Mref_name j)) locals e (True, s)))"
    and leaf: "is_local e \<or> is_metavar e"
  shows "va_inv d j (V \<union> mref_occs e) s0 (snd (snd (validate_step d (Meta (Mref_name j)) locals e (True, s))))"
proof (cases e)
  case (Local nm)
  then show ?thesis using inv
    by (auto simp: validate_step_def mref_occs_simps split: if_splits)
next
  case (Meta nm)
  show ?thesis
  proof (cases nm)
    case (Mref_name i)
    have ij: "i \<noteq> j" using ok Meta Mref_name by (auto simp: validate_step_def)
    show ?thesis using va_inv_restrict [OF inv ij] ij Meta Mref_name
      by (simp add: validate_step_def mref_occs_simps)
  qed (use inv Meta in \<open>auto simp: validate_step_def mref_occs_simps\<close>)
qed (use leaf in auto)

lemma for_each_seq_inv:
  assumes ih1: "\<And>V (s :: 'ps state). va_inv d j V s0 s \<Longrightarrow>
        fst (for_each (validate_step d m locals) e1 (True, s)) \<Longrightarrow>
        va_inv d j (V \<union> M1) s0 (snd (for_each (validate_step d m locals) e1 (True, s)))"
    and ih2: "\<And>V (s :: 'ps state). va_inv d j V s0 s \<Longrightarrow>
        fst (for_each (validate_step d m locals) e2 (True, s)) \<Longrightarrow>
        va_inv d j (V \<union> M2) s0 (snd (for_each (validate_step d m locals) e2 (True, s)))"
    and inv: "va_inv d j V s0 (s :: 'ps state)"
    and ok: "fst (for_each (validate_step d m locals) e2 (for_each (validate_step d m locals) e1 (True, s)))"
  shows "va_inv d j (V \<union> (M1 \<union> M2)) s0
           (snd (for_each (validate_step d m locals) e2 (for_each (validate_step d m locals) e1 (True, s))))"
proof -
  obtain ok1 s1 where r1: "for_each (validate_step d m locals) e1 (True, s) = (ok1, s1)"
    by (cases "for_each (validate_step d m locals) e1 (True, s)")
  have ok1: ok1
  proof (rule ccontr)
    assume "\<not> ok1"
    then have "for_each (validate_step d m locals) e2 (for_each (validate_step d m locals) e1 (True, s))
        = (False, s1)" using r1 by (simp add: for_each_failed)
    then show False using ok by simp
  qed
  have i1: "va_inv d j (V \<union> M1) s0 s1"
    using ih1 [OF inv] r1 ok1 by simp
  have "va_inv d j ((V \<union> M1) \<union> M2) s0 (snd (for_each (validate_step d m locals) e2 (True, s1)))"
    using ih2 [OF i1] ok r1 ok1 by simp
  then show ?thesis using r1 ok1 by (simp add: Un_assoc)
qed

lemma fold_for_each_inv:
  assumes ih: "\<And>a V (s :: 'ps state). a \<in> set es \<Longrightarrow> va_inv d j V s0 s \<Longrightarrow>
        fst (for_each (validate_step d m locals) a (True, s)) \<Longrightarrow>
        va_inv d j (V \<union> mref_occs a) s0 (snd (for_each (validate_step d m locals) a (True, s)))"
    and inv: "va_inv d j V s0 (s :: 'ps state)"
    and ok: "fst (fold (for_each (validate_step d m locals)) es (True, s))"
  shows "va_inv d j (V \<union> (\<Union>a \<in> set es. mref_occs a)) s0
           (snd (fold (for_each (validate_step d m locals)) es (True, s)))"
  using assms
proof (induction es arbitrary: V s)
  case Nil
  then show ?case by simp
next
  case (Cons a es)
  obtain ok1 s1 where r1: "for_each (validate_step d m locals) a (True, s) = (ok1, s1)"
    by (cases "for_each (validate_step d m locals) a (True, s)")
  have ok1: ok1
  proof (rule ccontr)
    assume "\<not> ok1"
    then have "fold (for_each (validate_step d m locals)) (a # es) (True, s) = (False, s1)"
      using r1 by (simp add: fold_for_each_failed)
    then show False using Cons.prems(3) by simp
  qed
  have i1: "va_inv d j (V \<union> mref_occs a) s0 s1"
    using Cons.prems(1) [of a V s] Cons.prems(2) r1 ok1 by simp
  have "va_inv d j ((V \<union> mref_occs a) \<union> (\<Union>a \<in> set es. mref_occs a)) s0
           (snd (fold (for_each (validate_step d m locals)) es (True, s1)))"
  proof (rule Cons.IH)
    show "va_inv d j (V \<union> mref_occs a) s0 s1" by (rule i1)
    show "fst (fold (for_each (validate_step d m locals)) es (True, s1))"
      using Cons.prems(3) r1 ok1 by simp
  qed (simp add: Cons.prems(1))
  then show ?case using r1 ok1 by (simp add: Un_assoc)
qed

lemma for_each_inv:
  assumes "va_inv d j V s0 (s :: 'ps state)"
    and "fst (for_each (validate_step d (Meta (Mref_name j)) locals) e (True, s))"
  shows "va_inv d j (V \<union> mref_occs e) s0
           (snd (for_each (validate_step d (Meta (Mref_name j)) locals) e (True, s)))"
  using assms
proof (induction e arbitrary: V s)
  case (App f a)
  have "va_inv d j (V \<union> (mref_occs f \<union> mref_occs a)) s0
     (snd (for_each (validate_step d (Meta (Mref_name j)) locals) a
            (for_each (validate_step d (Meta (Mref_name j)) locals) f (True, s))))"
  proof (rule for_each_seq_inv)
    show "va_inv d j V s0 s" by (rule App.prems(1))
    show "fst (for_each (validate_step d (Meta (Mref_name j)) locals) a
            (for_each (validate_step d (Meta (Mref_name j)) locals) f (True, s)))"
      using App.prems(2) by (simp add: validate_step_inner)
  qed (rule App.IH; assumption)+
  then show ?case by (simp add: validate_step_inner mref_occs_simps)
next
  case (Lam n dm b bi)
  have "va_inv d j (V \<union> (mref_occs dm \<union> mref_occs b)) s0
     (snd (for_each (validate_step d (Meta (Mref_name j)) locals) b
            (for_each (validate_step d (Meta (Mref_name j)) locals) dm (True, s))))"
  proof (rule for_each_seq_inv)
    show "va_inv d j V s0 s" by (rule Lam.prems(1))
    show "fst (for_each (validate_step d (Meta (Mref_name j)) locals) b
            (for_each (validate_step d (Meta (Mref_name j)) locals) dm (True, s)))"
      using Lam.prems(2) by (simp add: validate_step_inner)
  qed (rule Lam.IH; assumption)+
  then show ?case by (simp add: validate_step_inner mref_occs_simps)
next
  case (Pi n dm b bi)
  have "va_inv d j (V \<union> (mref_occs dm \<union> mref_occs b)) s0
     (snd (for_each (validate_step d (Meta (Mref_name j)) locals) b
            (for_each (validate_step d (Meta (Mref_name j)) locals) dm (True, s))))"
  proof (rule for_each_seq_inv)
    show "va_inv d j V s0 s" by (rule Pi.prems(1))
    show "fst (for_each (validate_step d (Meta (Mref_name j)) locals) b
            (for_each (validate_step d (Meta (Mref_name j)) locals) dm (True, s)))"
      using Pi.prems(2) by (simp add: validate_step_inner)
  qed (rule Pi.IH; assumption)+
  then show ?case by (simp add: validate_step_inner mref_occs_simps)
next
  case (Macro dn args)
  have "va_inv d j (V \<union> (\<Union>a \<in> set args. mref_occs a)) s0
           (snd (fold (for_each (validate_step d (Meta (Mref_name j)) locals)) args (True, s)))"
  proof (rule fold_for_each_inv)
    show "va_inv d j V s0 s" by (rule Macro.prems(1))
    show "fst (fold (for_each (validate_step d (Meta (Mref_name j)) locals)) args (True, s))"
      using Macro.prems(2) by (simp add: validate_step_inner)
  qed (rule Macro.IH; assumption)
  then show ?case by (simp add: validate_step_inner mref_occs_simps)
next
  case (Local nm)
  show ?case using va_inv_leaf [OF Local.prems(1), of locals "Local nm"] Local.prems(2)
    by (simp add: prod.case_eq_if)
next
  case (Meta nm)
  show ?case using va_inv_leaf [OF Meta.prems(1), of locals "Meta nm"] Meta.prems(2)
    by (simp add: prod.case_eq_if)
qed (simp_all add: validate_step_inner mref_occs_simps)

lemma va_inv_init:
  "m_metavar_decls s j = Some d \<Longrightarrow> va_inv d j {} s s"
  by (simp add: va_inv_def)

text \<open>
  C4. For a metavariable \<open>m\<close> with declaration \<open>d\<close>, \<^verbatim>\<open>validate_assignment(m, locals, v)\<close>
  answers false exactly when a hypothesis reference that occurs in \<open>v\<close> is not in the
  context of \<open>d\<close>, or a local constant that occurs in \<open>v\<close> and is neither a hypothesis
  reference nor temporary has its name nowhere in \<open>locals\<close>, or \<open>m\<close> occurs in \<open>v\<close>. When
  it answers true, no metavariable reference in \<open>v\<close> is \<open>m\<close>, and each of them that is
  declared and not assigned has, in the state left behind, its context narrowed to
  the intersection with the context of \<open>d\<close>.
\<close>

theorem validate_assignment_false_iff:
  assumes "get_metavar_decl s m = Some d"
  shows "\<exists>ok s'. validate_assignment m locals v s = Some (ok, s')
     \<and> (\<not> ok \<longleftrightarrow>
           (\<exists>e \<in> subterms v. is_href e \<and> \<not> contains_href d e)
         \<or> (\<exists>e \<in> subterms v. is_local e \<and> \<not> is_href e \<and> \<not> is_tmp_local e
                \<and> (\<forall>a \<in> set locals. \<not> same_mlocal_name a e))
         \<or> m \<in> subterms v)
     \<and> (ok \<longrightarrow>
           (\<forall>m' \<in> subterms v. is_mref m' \<longrightarrow>
              m' \<noteq> m
            \<and> (\<forall>d'. get_mref_assignment s m' = None \<longrightarrow> get_metavar_decl s m' = Some d' \<longrightarrow>
                  get_metavar_decl s' m'
                    = Some (d'\<lparr>md_context := md_context d' \<inter> md_context d\<rparr>))))"
proof -
  obtain j where m: "m = Meta (Mref_name j)" and dj: "m_metavar_decls s j = Some d"
    using assms by (cases m rule: is_mref.cases) (auto simp: get_metavar_decl_def)
  let ?r = "for_each (validate_step d m locals) v (True, s)"
  have va: "validate_assignment m locals v s = Some (fst ?r, snd ?r)"
    using assms by (simp add: validate_assignment_def)
  have ok: "fst ?r = (\<forall>x \<in> subterms v. \<not> va_bad d m locals x)"
    by (rule for_each_ok)
  have third: "(\<exists>e \<in> subterms v. is_mref e \<and> e = m) = (m \<in> subterms v)"
    using m by auto
  have iff: "(\<not> fst ?r) =
        ((\<exists>e \<in> subterms v. is_href e \<and> \<not> contains_href d e)
         \<or> (\<exists>e \<in> subterms v. is_local e \<and> \<not> is_href e \<and> \<not> is_tmp_local e
                \<and> (\<forall>a \<in> set locals. \<not> same_mlocal_name a e))
         \<or> m \<in> subterms v)"
    unfolding ok third [symmetric] va_bad_def by blast
  have narrow: "m' \<noteq> m \<and> (\<forall>d'. get_mref_assignment s m' = None \<longrightarrow>
         get_metavar_decl s m' = Some d' \<longrightarrow>
         get_metavar_decl (snd ?r) m' = Some (d'\<lparr>md_context := md_context d' \<inter> md_context d\<rparr>))"
    if okr: "fst ?r" and sub: "m' \<in> subterms v" and mr: "is_mref m'" for m'
  proof -
    have inv: "va_inv d j ({} \<union> mref_occs v) s (snd ?r)"
      unfolding m by (rule for_each_inv) (use okr dj m in \<open>simp_all add: va_inv_init\<close>)
    obtain i where m': "m' = Meta (Mref_name i)" using mr by (cases m' rule: is_mref.cases) auto
    have i: "i \<in> mref_occs v" using sub m' by (simp add: mref_occs_def mk_mref_def)
    have "m \<notin> subterms v" using okr iff by simp
    then have ne: "m' \<noteq> m" using sub by auto
    have "get_metavar_decl (snd ?r) m' = Some (d'\<lparr>md_context := md_context d' \<inter> md_context d\<rparr>)"
      if "get_mref_assignment s m' = None" "get_metavar_decl s m' = Some d'" for d'
      using that inv i m'
      by (simp add: va_inv_def get_mref_assignment_def get_metavar_decl_def narrowed_decl_def)
    then show ?thesis using ne by blast
  qed
  show ?thesis using va iff narrow by blast
qed

theorem validate_assignment_false_iff_witness:
  "get_metavar_decl va_state (mk_mref 0) = Some \<lparr>md_type = Sort LZero, md_context = {0}\<rparr>
   \<and> (\<exists>s'. validate_assignment (mk_mref 0) [] (App (mk_mref 1) (mk_href 0)) va_state = Some (True, s')
          \<and> get_metavar_decl s' (mk_mref 1) = Some \<lparr>md_type = Sort LZero, md_context = {0}\<rparr>)
   \<and> (\<exists>s'. validate_assignment (mk_mref 0) [] (App (mk_mref 1) (mk_href 1)) va_state = Some (False, s'))"
proof -
  have d: "get_metavar_decl va_state (mk_mref 0) = Some \<lparr>md_type = Sort LZero, md_context = {0}\<rparr>"
    by (simp add: get_metavar_decl_def va_state_def mk_mref_def)
  have d1: "get_metavar_decl va_state (mk_mref 1) = Some \<lparr>md_type = Sort LZero, md_context = {0, 1}\<rparr>"
    by (simp add: get_metavar_decl_def va_state_def mk_mref_def)
  have u1: "get_mref_assignment va_state (mk_mref 1) = None"
    by (simp add: get_mref_assignment_def va_state_def mk_mref_def)
  have a: "\<exists>s'. validate_assignment (mk_mref 0) [] (App (mk_mref 1) (mk_href 0)) va_state = Some (True, s')
          \<and> get_metavar_decl s' (mk_mref 1) = Some \<lparr>md_type = Sort LZero, md_context = {0}\<rparr>"
    using validate_assignment_false_iff [OF d, of "[]" "App (mk_mref 1) (mk_href 0)"] d1 u1
    by (auto simp: mk_mref_def mk_href_def contains_href_def)
  have b: "\<exists>s'. validate_assignment (mk_mref 0) [] (App (mk_mref 1) (mk_href 1)) va_state = Some (False, s')"
    using validate_assignment_false_iff [OF d, of "[]" "App (mk_mref 1) (mk_href 1)"]
    by (auto simp: mk_mref_def mk_href_def contains_href_def)
  show ?thesis using d a b by simp
qed

text \<open>
  C10. \<^verbatim>\<open>validate_assignment\<close> is not atomic when it rejects: on the value \<open>?1 ?0\<close>
  for the metavariable \<open>?0\<close> it answers false (the occurs check fails at the argument),
  and the context of \<open>?1\<close>, met before, stays narrowed from \<open>{0, 1}\<close> to \<open>{0}\<close> in the
  current state of the engine.
\<close>

theorem validate_assignment_not_atomic:
  "get_metavar_decl (m_curr_state va_env) (mk_mref 1)
     = Some \<lparr>md_type = Sort LZero, md_context = {0, 1}\<rparr>
   \<and> (\<exists>b'. tctx_validate_assignment (mk_mref 0) [] (App (mk_mref 1) (mk_mref 0)) va_env
              = Some (False, b')
          \<and> get_metavar_decl (m_curr_state b') (mk_mref 1)
              = Some \<lparr>md_type = Sort LZero, md_context = {0}\<rparr>
          \<and> m_curr_state b' \<noteq> m_curr_state va_env)"
proof -
  have 1: "get_metavar_decl (m_curr_state va_env) (mk_mref 1)
     = Some \<lparr>md_type = Sort LZero, md_context = {0, 1}\<rparr>"
    by (simp add: va_env_def va_state_def get_metavar_decl_def mk_mref_def)
  have r: "restrict_mref_context_using (Meta (Mref_name 1)) (Meta (Mref_name 0)) va_state
      = Some (va_state\<lparr>m_metavar_decls :=
               (m_metavar_decls va_state)(1 \<mapsto> \<lparr>md_type = Sort LZero, md_context = {0}\<rparr>)\<rparr>)"
    by (simp add: restrict_mref_context_using_def va_state_def get_metavar_decl_def
        get_mref_assignment_def Let_def)
  have 2: "validate_assignment (mk_mref 0) [] (App (mk_mref 1) (mk_mref 0)) va_state
      = Some (False, va_state\<lparr>m_metavar_decls :=
               (m_metavar_decls va_state)(1 \<mapsto> \<lparr>md_type = Sort LZero, md_context = {0}\<rparr>)\<rparr>)"
    using r by (simp add: validate_assignment_def validate_step_def mk_mref_def
        get_metavar_decl_def va_state_def)
  have 3: "get_metavar_decl (va_state\<lparr>m_metavar_decls :=
               (m_metavar_decls va_state)(1 \<mapsto> \<lparr>md_type = Sort LZero, md_context = {0}\<rparr>)\<rparr>) (mk_mref 1)
      = Some \<lparr>md_type = Sort LZero, md_context = {0}\<rparr>"
    by (simp add: get_metavar_decl_def mk_mref_def)
  have 4: "va_state\<lparr>m_metavar_decls :=
               (m_metavar_decls va_state)(1 \<mapsto> \<lparr>md_type = Sort LZero, md_context = {0}\<rparr>)\<rparr> \<noteq> va_state"
  proof
    assume "va_state\<lparr>m_metavar_decls :=
               (m_metavar_decls va_state)(1 \<mapsto> \<lparr>md_type = Sort LZero, md_context = {0}\<rparr>)\<rparr> = va_state"
    then have "get_metavar_decl va_state (mk_mref 1) = Some \<lparr>md_type = Sort LZero, md_context = {0}\<rparr>"
      using 3 by simp
    then show False using 1 by (simp add: va_env_def)
  qed
  show ?thesis using 1 2 3 4
    by (simp add: tctx_validate_assignment_def va_env_def)
qed

subsection \<open>Resolving proof steps\<close>

lemma resolve_loop_steps:
  assumes "keeps_proof_steps R"
  shows "m_proof_steps s = ps \<Longrightarrow> resolve_loop R s pr = Some (resolve_steps R ps s pr)"
proof (induction ps arbitrary: s pr)
  case Nil
  then show ?case by (subst resolve_loop.simps) (simp add: has_proof_steps_def)
next
  case (Cons p ps)
  obtain r s' where r: "R p s pr = (r, s')" by (cases "R p s pr")
  have st: "m_proof_steps s' = p # ps"
    using assms r Cons.prems unfolding keeps_proof_steps_def by (metis snd_conv)
  show ?case
  proof (cases r)
    case None
    then show ?thesis using r Cons.prems
      by (subst resolve_loop.simps) (simp add: has_proof_steps_def top_proof_step_def)
  next
    case (Some new_pr)
    have "resolve_loop R (pop_proof_step s') new_pr
        = Some (resolve_steps R ps (pop_proof_step s') new_pr)"
      by (rule Cons.IH) (simp add: pop_proof_step_def st)
    then show ?thesis using r Some Cons.prems
      by (subst resolve_loop.simps) (simp add: has_proof_steps_def top_proof_step_def)
  qed
qed

lemma resolve_steps_stack:
  assumes "keeps_proof_steps R"
  shows "m_proof_steps s = ps \<Longrightarrow> resolve_steps R ps s pr = (r, s') \<Longrightarrow>
         (\<exists>dn. ps = dn @ m_proof_steps s')
       \<and> (r = None \<longleftrightarrow> m_proof_steps s' \<noteq> [])
       \<and> (r = None \<longrightarrow> (\<exists>s1 pr1. R (hd (m_proof_steps s')) s1 pr1 = (None, s')))"
proof (induction ps arbitrary: s pr)
  case Nil
  then show ?case by auto
next
  case (Cons p ps)
  obtain r1 s1 where r1: "R p s pr = (r1, s1)" by (cases "R p s pr")
  have st: "m_proof_steps s1 = p # ps"
    using assms r1 Cons.prems(1) unfolding keeps_proof_steps_def by (metis snd_conv)
  show ?case
  proof (cases r1)
    case None
    then have "r = None" "s' = s1" using r1 Cons.prems(2) by auto
    then show ?thesis using st r1 None by auto
  next
    case (Some new_pr)
    have "resolve_steps R ps (pop_proof_step s1) new_pr = (r, s')"
      using r1 Some Cons.prems(2) by simp
    then have "(\<exists>dn. ps = dn @ m_proof_steps s')
       \<and> (r = None \<longleftrightarrow> m_proof_steps s' \<noteq> [])
       \<and> (r = None \<longrightarrow> (\<exists>s1 pr1. R (hd (m_proof_steps s')) s1 pr1 = (None, s')))"
      by (intro Cons.IH) (simp_all add: pop_proof_step_def st)
    then show ?thesis by (metis append_Cons)
  qed
qed

text \<open>
  C7. \<^verbatim>\<open>resolve(pr)\<close> on the current state: with no proof step on the stack it
  returns \<open>pr\<close>; when the top step answers a new partial proof, the step is popped and
  the loop goes on with that proof; when the top step answers incomplete,
  \<^verbatim>\<open>resolve\<close> returns none and pops nothing. For resolvers that leave the stack
  alone the loop always returns, with the result of trying the steps from the top
  down: a proof exactly when the stack has emptied, and otherwise none, with the step
  that answered incomplete on top of what is left of the stack.
\<close>

theorem resolve_pops_while_steps_accept:
  "(\<not> has_proof_steps (m_curr_state b) \<longrightarrow> resolve A b pr = Some (Some pr, b))
   \<and> (\<forall>new_pr s'. has_proof_steps (m_curr_state b) \<longrightarrow>
         step_resolve A (top_proof_step (m_curr_state b)) (m_curr_state b) pr = (Some new_pr, s') \<longrightarrow>
         resolve A b pr = resolve A (b\<lparr>m_curr_state := pop_proof_step s'\<rparr>) new_pr)
   \<and> (\<forall>s'. has_proof_steps (m_curr_state b) \<longrightarrow>
         step_resolve A (top_proof_step (m_curr_state b)) (m_curr_state b) pr = (None, s') \<longrightarrow>
         resolve A b pr = Some (None, b\<lparr>m_curr_state := s'\<rparr>))
   \<and> (keeps_proof_steps (step_resolve A) \<longrightarrow>
         (\<exists>r s'. resolve A b pr = Some (r, b\<lparr>m_curr_state := s'\<rparr>)
            \<and> (r, s') = resolve_steps (step_resolve A) (m_proof_steps (m_curr_state b)) (m_curr_state b) pr
            \<and> (\<exists>dn. m_proof_steps (m_curr_state b) = dn @ m_proof_steps s')
            \<and> (r = None \<longleftrightarrow> has_proof_steps s')
            \<and> (r = None \<longrightarrow>
                  (\<exists>s1 pr1. step_resolve A (top_proof_step s') s1 pr1 = (None, s')))))"
proof -
  have 1: "resolve A b pr = Some (Some pr, b)" if "\<not> has_proof_steps (m_curr_state b)"
    using that unfolding resolve_def by (subst resolve_loop.simps) simp
  have 2: "resolve A b pr = resolve A (b\<lparr>m_curr_state := pop_proof_step s'\<rparr>) new_pr"
    if "has_proof_steps (m_curr_state b)"
      "step_resolve A (top_proof_step (m_curr_state b)) (m_curr_state b) pr = (Some new_pr, s')"
    for new_pr s'
    using that unfolding resolve_def
    by (subst resolve_loop.simps) (simp split: option.splits)
  have 3: "resolve A b pr = Some (None, b\<lparr>m_curr_state := s'\<rparr>)"
    if "has_proof_steps (m_curr_state b)"
      "step_resolve A (top_proof_step (m_curr_state b)) (m_curr_state b) pr = (None, s')"
    for s'
    using that unfolding resolve_def by (subst resolve_loop.simps) simp
  have 4: "\<exists>r s'. resolve A b pr = Some (r, b\<lparr>m_curr_state := s'\<rparr>)
            \<and> (r, s') = resolve_steps (step_resolve A) (m_proof_steps (m_curr_state b)) (m_curr_state b) pr
            \<and> (\<exists>dn. m_proof_steps (m_curr_state b) = dn @ m_proof_steps s')
            \<and> (r = None \<longleftrightarrow> has_proof_steps s')
            \<and> (r = None \<longrightarrow>
                  (\<exists>s1 pr1. step_resolve A (top_proof_step s') s1 pr1 = (None, s')))"
    if k: "keeps_proof_steps (step_resolve A)"
  proof -
    obtain r s' where rs: "resolve_steps (step_resolve A) (m_proof_steps (m_curr_state b)) (m_curr_state b) pr = (r, s')"
      by (cases "resolve_steps (step_resolve A) (m_proof_steps (m_curr_state b)) (m_curr_state b) pr")
    have "resolve_loop (step_resolve A) (m_curr_state b) pr = Some (r, s')"
      using resolve_loop_steps [OF k, of "m_curr_state b" _ pr] rs by simp
    then have a: "resolve A b pr = Some (r, b\<lparr>m_curr_state := s'\<rparr>)"
      by (simp add: resolve_def)
    show ?thesis
      using a rs resolve_steps_stack [OF k _ rs]
      by (auto simp: has_proof_steps_def top_proof_step_def)
  qed
  show ?thesis using 1 2 3 4 by blast
qed

lemma ex_keeps: "keeps_proof_steps ex_step_resolve"
  by (simp add: keeps_proof_steps_def ex_step_resolve_def)

theorem resolve_pops_while_steps_accept_witness:
  "keeps_proof_steps (step_resolve ex_actions)
   \<and> resolve ex_actions (ex_stack_env [2, 1]) (Var 0)
       = Some (Some (App (Constant (Name ''step'') []) (App (Constant (Name ''step'') []) (Var 0))),
               ex_stack_env [])
   \<and> resolve ex_actions (ex_stack_env [1, 0, 3]) (Var 0)
       = Some (None, ex_stack_env [0, 3])"
proof -
  have k: "keeps_proof_steps (step_resolve ex_actions)"
    by (simp add: ex_actions_def ex_keeps)
  have a: "resolve_steps (step_resolve ex_actions) [2, 1] (m_curr_state (ex_stack_env [2, 1])) (Var 0)
      = (Some (App (Constant (Name ''step'') []) (App (Constant (Name ''step'') []) (Var 0))),
         m_curr_state (ex_stack_env []))"
    by (simp add: ex_actions_def ex_step_resolve_def ex_stack_env_def pop_proof_step_def)
  have b: "resolve_steps (step_resolve ex_actions) [1, 0, 3] (m_curr_state (ex_stack_env [1, 0, 3])) (Var 0)
      = (None, m_curr_state (ex_stack_env [0, 3]))"
    by (simp add: ex_actions_def ex_step_resolve_def ex_stack_env_def pop_proof_step_def)
  have e: "\<And>ps qs. (ex_stack_env ps)\<lparr>m_curr_state := m_curr_state (ex_stack_env qs)\<rparr> = ex_stack_env qs"
    by (simp add: ex_stack_env_def)
  have s: "\<And>ps. m_proof_steps (m_curr_state (ex_stack_env ps)) = ps"
    by (simp add: ex_stack_env_def)
  have r1: "resolve ex_actions (ex_stack_env [2, 1]) (Var 0)
       = Some (Some (App (Constant (Name ''step'') []) (App (Constant (Name ''step'') []) (Var 0))),
               ex_stack_env [])"
    using resolve_pops_while_steps_accept [of "ex_stack_env [2, 1]" ex_actions "Var 0"] k a e s
    by (metis prod.inject)
  have r2: "resolve ex_actions (ex_stack_env [1, 0, 3]) (Var 0) = Some (None, ex_stack_env [0, 3])"
    using resolve_pops_while_steps_accept [of "ex_stack_env [1, 0, 3]" ex_actions "Var 0"] k b e s
    by (metis prod.inject)
  show ?thesis using k r1 r2 by simp
qed

subsection \<open>The search driver\<close>

lemma same_options_refl: "same_options b b"
  by (simp add: same_options_def)

lemma same_options_trans: "same_options b b1 \<Longrightarrow> same_options b1 b2 \<Longrightarrow> same_options b b2"
  by (simp add: same_options_def)

lemma next_choice_point_options: "same_options b (snd (next_choice_point b))"
  by (simp add: next_choice_point_def same_options_def)

lemma next_action_options: "same_options b (snd (next_action A b))"
  by (simp add: next_action_def same_options_def split: prod.splits bool.splits option.splits)

lemma resolve_options: "resolve A b pr = Some (r, b') \<Longrightarrow> same_options b b'"
  by (auto simp: resolve_def same_options_def split: option.splits)

lemma search_upto_options:
  assumes "search_upto A depth b = Some res"
  shows "same_options b (snd res)"
proof (rule search_upto.raw_induct
    [where P = "\<lambda>A depth b res. same_options b (snd res)", OF _ assms], goal_cases)
  case (1 su A depth b res)
  obtain ok1 b1 where c1:
    "(if get_proof_depth (m_curr_state b) > depth then next_choice_point b else (True, b)) = (ok1, b1)"
    by (cases "(if get_proof_depth (m_curr_state b) > depth then next_choice_point b else (True, b))")
  have o1: "same_options b b1"
    using c1 next_choice_point_options [of b] by (auto simp: same_options_refl split: if_splits)
  show ?case
  proof (cases ok1)
    case False
    then have "res = (None, b1)" using 1(2) c1 by simp
    then show ?thesis using o1 by simp
  next
    case True
    obtain st b2 where na: "next_action A b1 = (st, b2)" by (cases "next_action A b1")
    have o2: "same_options b b2"
      using next_action_options [of b1 A] na o1 by (auto intro: same_options_trans)
    show ?thesis
    proof (cases st)
      case NoAction
      obtain ok2 b3 where c2: "next_choice_point b2 = (ok2, b3)" by (cases "next_choice_point b2")
      have o3: "same_options b b3"
        using next_choice_point_options [of b2] c2 o2 by (auto intro: same_options_trans)
      show ?thesis
      proof (cases ok2)
        case False
        then have "res = (None, b3)" using 1(2) c1 True na NoAction c2 by simp
        then show ?thesis using o3 by simp
      next
        case T2: True
        then have "su A depth b3 = Some res" using 1(2) c1 True na NoAction c2 by auto
        then have "same_options b3 (snd res)" by (rule 1(1))
        then show ?thesis using o3 by (rule same_options_trans [rotated])
      qed
    next
      case (ClosedBranch e)
      show ?thesis
      proof (cases "resolve A b2 e")
        case None
        then show ?thesis using 1(2) c1 True na ClosedBranch by auto
      next
        case (Some rb)
        obtain r b3 where rb: "rb = (r, b3)" by (cases rb)
        have o3: "same_options b b3"
          using resolve_options [of A b2 e r b3] Some rb o2 by (auto intro: same_options_trans)
        show ?thesis
        proof (cases r)
          case None
          then have "su A depth b3 = Some res"
            using 1(2) c1 True na ClosedBranch Some rb by auto
          then have "same_options b3 (snd res)" by (rule 1(1))
          then show ?thesis using o3 by (rule same_options_trans [rotated])
        next
          case (Some pr)
          then have "res = (Some pr, b3)"
            using 1(2) c1 True na ClosedBranch \<open>resolve A b2 e = Some rb\<close> rb by simp
          then show ?thesis using o3 by simp
        qed
      qed
    next
      case Continue
      then have "su A depth b2 = Some res" using 1(2) c1 True na by auto
      then have "same_options b2 (snd res)" by (rule 1(1))
      then show ?thesis using o2 by (rule same_options_trans [rotated])
    qed
  qed
qed

lemma deepening_search_loop:
  assumes "deepening A s0 mx inc d b res"
  shows "m_max_depth b = mx \<Longrightarrow> m_inc_depth b = inc \<Longrightarrow> search_loop A s0 d b = Some res"
  using assms
proof (induction rule: deepening.induct)
  case (exhausted d b)
  then show ?case by (subst search_loop.simps) simp
next
  case (found d b pr b1)
  then show ?case by (subst search_loop.simps) simp
next
  case (deeper d b b1 res)
  have o: "same_options b b1" using search_upto_options [OF deeper.hyps(2)] by simp
  have "search_loop A s0 (d + inc) (b1\<lparr>m_curr_state := s0, m_choice_points := []\<rparr>) = Some res"
    using deeper.IH deeper.prems o by (simp add: same_options_def)
  then show ?case
    by (subst search_loop.simps)
       (use deeper.hyps(1,2) deeper.prems o in \<open>simp add: same_options_def\<close>)
qed

lemma search_loop_deepening:
  assumes "search_loop A s0 d b = Some res"
  shows "deepening A s0 (m_max_depth b) (m_inc_depth b) d b res"
proof (rule search_loop.raw_induct
    [where P = "\<lambda>A s0 d b res. deepening A s0 (m_max_depth b) (m_inc_depth b) d b res",
      OF _ assms], goal_cases)
  case (1 sl A s0 d b res)
  show ?case
  proof (cases "d \<le> m_max_depth b")
    case False
    then show ?thesis using 1(2) by (auto intro: deepening.exhausted)
  next
    case True
    show ?thesis
    proof (cases "search_upto A d b")
      case None
      then show ?thesis using 1(2) True by simp
    next
      case (Some rb)
      obtain r b1 where rb: "rb = (r, b1)" by (cases rb)
      have o: "same_options b b1" using search_upto_options [OF Some] rb by simp
      show ?thesis
      proof (cases r)
        case (Some pr)
        then show ?thesis using 1(2) True \<open>search_upto A d b = Some rb\<close> rb
          by (auto intro: deepening.found)
      next
        case None
        let ?b2 = "b1\<lparr>m_curr_state := s0, m_choice_points := []\<rparr>"
        have "sl A s0 (d + m_inc_depth b1) ?b2 = Some res"
          using 1(2) True \<open>search_upto A d b = Some rb\<close> rb None by simp
        then have "deepening A s0 (m_max_depth ?b2) (m_inc_depth ?b2) (d + m_inc_depth b1) ?b2 res"
          by (rule 1(1))
        then have "deepening A s0 (m_max_depth b) (m_inc_depth b) (d + m_inc_depth b) ?b2 res"
          using o by (simp add: same_options_def)
        then show ?thesis using True \<open>search_upto A d b = Some rb\<close> rb None
          by (auto intro: deepening.deeper)
      qed
    qed
  qed
qed

lemma deepening_result:
  assumes "deepening A s0 mx inc d b res"
  shows "(\<forall>pr. fst res = Some pr \<longrightarrow>
            (\<exists>d' b0. d' \<le> mx \<and> search_upto A d' b0 = Some res))
       \<and> (fst res = None \<longrightarrow>
            (snd res = b \<and> \<not> d \<le> mx)
          \<or> (m_curr_state (snd res) = s0 \<and> m_choice_points (snd res) = []))"
  using assms
proof (induction rule: deepening.induct)
  case (exhausted d b)
  then show ?case by simp
next
  case (found d b pr b1)
  then show ?case by auto
next
  case (deeper d b b1 res)
  then show ?case by auto
qed

lemma search_loop_returns:
  assumes total: "\<forall>d b0. search_upto A d b0 \<noteq> None"
    and inc: "1 \<le> inc"
    and nowrap: "unat mx + unat inc < 2 ^ 32"
  shows "m_max_depth b = mx \<Longrightarrow> m_inc_depth b = inc \<Longrightarrow> \<exists>res. search_loop A s0 d b = Some res"
proof (induction "Suc (unat mx) - unat d" arbitrary: d b rule: less_induct)
  case less
  show ?case
  proof (cases "d \<le> mx")
    case False
    then show ?thesis using less.prems by (subst search_loop.simps) simp
  next
    case True
    obtain r b1 where su: "search_upto A d b = Some (r, b1)"
      using total by (metis not_None_eq surj_pair)
    have o: "same_options b b1" using search_upto_options [OF su] by simp
    show ?thesis
    proof (cases r)
      case (Some pr)
      then show ?thesis using True su less.prems by (subst search_loop.simps) simp
    next
      case None
      let ?b2 = "b1\<lparr>m_curr_state := s0, m_choice_points := []\<rparr>"
      have dle: "unat d \<le> unat mx" using True by (simp add: word_le_nat_alt)
      have ua: "unat (d + inc) = unat d + unat inc"
        by (rule unat_add_lem [THEN iffD1]) (use nowrap dle in simp)
      have "1 \<le> unat inc" using inc by (simp add: word_le_nat_alt)
      then have "Suc (unat mx) - unat (d + inc) < Suc (unat mx) - unat d"
        using ua dle by simp
      then have "\<exists>res. search_loop A s0 (d + inc) ?b2 = Some res"
        using less.hyps [of "d + inc" ?b2] less.prems o by (simp add: same_options_def)
      then show ?thesis
        by (subst search_loop.simps)
           (use True su None less.prems o in \<open>simp add: same_options_def\<close>)
    qed
  qed
qed

lemma every_iteration_fails_first:
  "every_iteration_fails A s0 mx inc d b \<Longrightarrow> d \<le> mx \<Longrightarrow> \<exists>b1. search_upto A d b = Some (None, b1)"
  unfolding every_iteration_fails_def using nth_iteration.simps(1) [of A s0 mx inc d b] by blast

lemma every_iteration_fails_next:
  assumes "every_iteration_fails A s0 mx inc d b" and "d \<le> mx"
    and "search_upto A d b = Some (None, b1)"
  shows "every_iteration_fails A s0 mx inc (d + inc) (b1\<lparr>m_curr_state := s0, m_choice_points := []\<rparr>)"
  unfolding every_iteration_fails_def
proof (intro allI impI)
  fix k d' b'
  assume n: "nth_iteration A s0 mx inc k (d + inc) (b1\<lparr>m_curr_state := s0, m_choice_points := []\<rparr>)
      = Some (d', b')" and le: "d' \<le> mx"
  have "nth_iteration A s0 mx inc (Suc k) d b = Some (d', b')"
    using n assms(2,3) by simp
  then show "\<exists>b1. search_upto A d' b' = Some (None, b1)"
    using assms(1) le unfolding every_iteration_fails_def by blast
qed

lemma search_loop_exhausts:
  assumes inc: "1 \<le> inc"
    and nowrap: "unat mx + unat inc < 2 ^ 32"
  shows "m_max_depth b = mx \<Longrightarrow> m_inc_depth b = inc \<Longrightarrow> every_iteration_fails A s0 mx inc d b \<Longrightarrow>
         \<exists>b'. search_loop A s0 d b = Some (None, b')"
proof (induction "Suc (unat mx) - unat d" arbitrary: d b rule: less_induct)
  case less
  show ?case
  proof (cases "d \<le> mx")
    case False
    then show ?thesis using less.prems by (subst search_loop.simps) simp
  next
    case True
    obtain b1 where su: "search_upto A d b = Some (None, b1)"
      using every_iteration_fails_first [OF less.prems(3) True] by blast
    have o: "same_options b b1" using search_upto_options [OF su] by simp
    let ?b2 = "b1\<lparr>m_curr_state := s0, m_choice_points := []\<rparr>"
    have ef: "every_iteration_fails A s0 mx inc (d + inc) ?b2"
      using less.prems(3) True su by (rule every_iteration_fails_next)
    have dle: "unat d \<le> unat mx" using True by (simp add: word_le_nat_alt)
    have ua: "unat (d + inc) = unat d + unat inc"
      by (rule unat_add_lem [THEN iffD1]) (use nowrap dle in simp)
    have "1 \<le> unat inc" using inc by (simp add: word_le_nat_alt)
    then have "Suc (unat mx) - unat (d + inc) < Suc (unat mx) - unat d"
      using ua dle by simp
    then have "\<exists>b'. search_loop A s0 (d + inc) ?b2 = Some (None, b')"
      using less.hyps [of "d + inc" ?b2] less.prems(1,2) o ef by (simp add: same_options_def)
    then show ?thesis
      by (subst search_loop.simps)
         (use True su less.prems(1,2) o in \<open>simp add: same_options_def\<close>)
  qed
qed

text \<open>
  C1, as amended. The search driver is iterative deepening: \<^verbatim>\<open>search\<close> returns \<open>res\<close>
  exactly when the iterations described by \<open>deepening\<close>, begun at depth \<^verbatim>\<open>init_depth\<close>
  with the state saved at the start, end with \<open>res\<close>. A proof that is returned is the
  one an inner search at some depth within \<^verbatim>\<open>max_depth\<close> has found; a run that ends
  without a proof returns none and, unless no iteration was run, leaves the saved
  state as the current state and no choice point. When \<^verbatim>\<open>inc_depth\<close> is at least 1 and
  \<^verbatim>\<open>max_depth + inc_depth\<close> does not exceed the largest \<^verbatim>\<open>unsigned\<close>, so that the depth
  advances and cannot wrap around, \<^verbatim>\<open>search\<close> returns if every inner search does, and
  if every iteration fails what it returns is none.
\<close>

theorem search_is_iterative_deepening:
  "(search A b = Some res \<longleftrightarrow>
      deepening A (m_curr_state b) (m_max_depth b) (m_inc_depth b) (m_init_depth b) b res)
   \<and> (search A b = Some res \<longrightarrow>
        (\<forall>pr. fst res = Some pr \<longrightarrow>
           (\<exists>d b0. d \<le> m_max_depth b \<and> search_upto A d b0 = Some res)))
   \<and> (search A b = Some res \<longrightarrow> fst res = None \<longrightarrow>
        (snd res = b \<and> \<not> m_init_depth b \<le> m_max_depth b)
      \<or> (m_curr_state (snd res) = m_curr_state b \<and> m_choice_points (snd res) = []))
   \<and> (1 \<le> m_inc_depth b \<longrightarrow> unat (m_max_depth b) + unat (m_inc_depth b) < 2 ^ 32 \<longrightarrow>
        ((\<forall>d b0. search_upto A d b0 \<noteq> None) \<longrightarrow> (\<exists>r. search A b = Some r))
      \<and> (every_iteration_fails A (m_curr_state b) (m_max_depth b) (m_inc_depth b) (m_init_depth b) b
           \<longrightarrow> (\<exists>b'. search A b = Some (None, b'))))"
proof -
  have eq: "search A b = Some res \<longleftrightarrow>
      deepening A (m_curr_state b) (m_max_depth b) (m_inc_depth b) (m_init_depth b) b res"
    unfolding search_def
    using search_loop_deepening [of A "m_curr_state b" "m_init_depth b" b res]
      deepening_search_loop [of A "m_curr_state b" "m_max_depth b" "m_inc_depth b" "m_init_depth b" b res]
    by blast
  have r: "(\<forall>pr. fst res = Some pr \<longrightarrow>
            (\<exists>d' b0. d' \<le> m_max_depth b \<and> search_upto A d' b0 = Some res))
       \<and> (fst res = None \<longrightarrow>
            (snd res = b \<and> \<not> m_init_depth b \<le> m_max_depth b)
          \<or> (m_curr_state (snd res) = m_curr_state b \<and> m_choice_points (snd res) = []))"
    if "search A b = Some res"
    using deepening_result [of A "m_curr_state b" "m_max_depth b" "m_inc_depth b" "m_init_depth b" b res]
      that eq by blast
  have t: "\<exists>r. search A b = Some r"
    if "1 \<le> m_inc_depth b" "unat (m_max_depth b) + unat (m_inc_depth b) < 2 ^ 32"
      "\<forall>d b0. search_upto A d b0 \<noteq> None"
    unfolding search_def using that by (intro search_loop_returns [where mx = "m_max_depth b"
          and inc = "m_inc_depth b"]) simp_all
  have f: "\<exists>b'. search A b = Some (None, b')"
    if "1 \<le> m_inc_depth b" "unat (m_max_depth b) + unat (m_inc_depth b) < 2 ^ 32"
      "every_iteration_fails A (m_curr_state b) (m_max_depth b) (m_inc_depth b) (m_init_depth b) b"
    unfolding search_def using that by (intro search_loop_exhausts [where mx = "m_max_depth b"
          and inc = "m_inc_depth b"]) simp_all
  show ?thesis using eq r t f by blast
qed

lemma next_action_ex: "next_action ex_actions b = (NoAction, b)"
  by (simp add: next_action_def ex_actions_def)

lemma search_upto_ex_fails:
  "\<exists>b'. search_upto ex_actions d b = Some (None, b')"
proof (induction "length (m_choice_points b)" arbitrary: b rule: less_induct)
  case less
  obtain ok1 b1 where c1:
    "(if get_proof_depth (m_curr_state b) > d then next_choice_point b else (True, b)) = (ok1, b1)"
    by (cases "(if get_proof_depth (m_curr_state b) > d then next_choice_point b else (True, b))")
  have l1: "length (m_choice_points b1) \<le> length (m_choice_points b)"
    using c1 by (auto simp: next_choice_point_def split: if_splits)
  show ?case
  proof (cases ok1)
    case False
    then show ?thesis using c1 by (subst search_upto.simps) simp
  next
    case True
    obtain ok2 b3 where c2: "next_choice_point b1 = (ok2, b3)" by (cases "next_choice_point b1")
    show ?thesis
    proof (cases ok2)
      case False
      then show ?thesis using c1 True c2
        by (subst search_upto.simps) (simp add: next_action_ex)
    next
      case T2: True
      then have "length (m_choice_points b3) < length (m_choice_points b1)"
        using c2 by (auto simp: next_choice_point_def split: if_splits)
      then have "length (m_choice_points b3) < length (m_choice_points b)" using l1 by simp
      then obtain b' where "search_upto ex_actions d b3 = Some (None, b')"
        using less by blast
      then show ?thesis using c1 True c2 T2
        by (subst search_upto.simps) (simp add: next_action_ex)
    qed
  qed
qed

lemma search_upto_ex_no_choice:
  "m_choice_points b = [] \<Longrightarrow> search_upto ex_actions d b = Some (None, b)"
  by (subst search_upto.simps) (simp add: next_action_ex next_choice_point_def)

lemma search_upto_ex_closing:
  "\<not> get_proof_depth (m_curr_state b) > d \<Longrightarrow> m_proof_steps (m_curr_state b) = [] \<Longrightarrow>
   search_upto ex_closing_actions d b = Some (Some (mk_href 0), b)"
proof -
  assume a: "\<not> get_proof_depth (m_curr_state b) > d" "m_proof_steps (m_curr_state b) = []"
  have n: "next_action ex_closing_actions b = (ClosedBranch (mk_href 0), b)"
    by (simp add: next_action_def ex_closing_actions_def)
  have r: "resolve ex_closing_actions b (mk_href 0) = Some (Some (mk_href 0), b)"
    unfolding resolve_def using a(2)
    by (subst resolve_loop.simps) (simp add: has_proof_steps_def)
  show ?thesis using a(1) n r by (subst search_upto.simps) simp
qed

lemma search_upto_ex_total: "search_upto ex_actions d b \<noteq> None"
  using search_upto_ex_fails [of d b] by auto

lemma search_upto_ex_allfail: "search_upto ex_actions d b = Some (r, b1) \<Longrightarrow> r = None"
  using search_upto_ex_fails [of d b] by auto

lemma every_iteration_fails_ex: "every_iteration_fails ex_actions s0 mx inc d b"
  unfolding every_iteration_fails_def using search_upto_ex_fails by blast

theorem search_is_iterative_deepening_witness:
  "1 \<le> m_inc_depth ex_search_env
   \<and> unat (m_max_depth ex_search_env) + unat (m_inc_depth ex_search_env) < 2 ^ 32
   \<and> every_iteration_fails ex_actions (m_curr_state ex_search_env) (m_max_depth ex_search_env)
       (m_inc_depth ex_search_env) (m_init_depth ex_search_env) ex_search_env
   \<and> search ex_actions ex_search_env = Some (None, ex_search_env)
   \<and> search ex_closing_actions ex_search_env = Some (Some (mk_href 0), ex_search_env)"
proof -
  have c: "m_choice_points ex_search_env = []" by (simp add: ex_search_env_def)
  have reset: "ex_search_env\<lparr>m_curr_state := ex_state, m_choice_points := []\<rparr> = ex_search_env"
    by (simp add: ex_search_env_def)
  have a: "1 \<le> m_inc_depth ex_search_env"
    "unat (m_max_depth ex_search_env) + unat (m_inc_depth ex_search_env) < 2 ^ 32"
    by (simp_all add: ex_search_env_def)
  have e: "every_iteration_fails ex_actions (m_curr_state ex_search_env) (m_max_depth ex_search_env)
       (m_inc_depth ex_search_env) (m_init_depth ex_search_env) ex_search_env"
    by (rule every_iteration_fails_ex)
  have su: "\<And>d. search_upto ex_actions d ex_search_env = Some (None, ex_search_env)"
    using search_upto_ex_no_choice [OF c] .
  have t: "\<forall>d b0. search_upto ex_actions d b0 \<noteq> None"
    using search_upto_ex_total by blast
  have "\<exists>r. search ex_actions ex_search_env = Some r"
    using search_is_iterative_deepening [of ex_actions ex_search_env "(None, ex_search_env)"] a t
    by blast
  then obtain b' where s: "search ex_actions ex_search_env = Some (None, b')"
    using search_is_iterative_deepening [of ex_actions ex_search_env "(None, ex_search_env)"] a e
    by blast
  have d16: "deepening ex_actions ex_state 12 5 16 ex_search_env (None, ex_search_env)"
    by (rule deepening.exhausted) simp
  have d11: "deepening ex_actions ex_state 12 5 11 ex_search_env (None, ex_search_env)"
    by (rule deepening.deeper [OF _ su]) (simp_all add: reset d16)
  have d6: "deepening ex_actions ex_state 12 5 6 ex_search_env (None, ex_search_env)"
    by (rule deepening.deeper [OF _ su]) (simp_all add: reset d11)
  have d1: "deepening ex_actions ex_state 12 5 1 ex_search_env (None, ex_search_env)"
    by (rule deepening.deeper [OF _ su]) (simp_all add: reset d6)
  have "search ex_actions ex_search_env = Some (None, ex_search_env)"
    using search_is_iterative_deepening [of ex_actions ex_search_env "(None, ex_search_env)"] d1
    by (simp add: ex_search_env_def)
  then have 1: "search ex_actions ex_search_env = Some (None, ex_search_env)" using s by simp
  have "search_upto ex_closing_actions 1 ex_search_env = Some (Some (mk_href 0), ex_search_env)"
    by (rule search_upto_ex_closing)
       (simp_all add: ex_search_env_def ex_state_def get_proof_depth_def)
  then have "deepening ex_closing_actions ex_state 12 5 1 ex_search_env
      (Some (mk_href 0), ex_search_env)"
    by (intro deepening.found) simp_all
  then have 2: "search ex_closing_actions ex_search_env = Some (Some (mk_href 0), ex_search_env)"
    using search_is_iterative_deepening
      [of ex_closing_actions ex_search_env "(Some (mk_href 0), ex_search_env)"]
    by (simp add: ex_search_env_def)
  show ?thesis using a e 1 2 by blast
qed

lemma search_loop_stuck:
  assumes run: "search_loop A s0 d b = Some res"
    and allfail: "\<forall>d b0 r b1. search_upto A d b0 = Some (r, b1) \<longrightarrow> r = None"
  shows "\<not> (d \<le> m_max_depth b \<and> (m_inc_depth b = 0 \<or> m_max_depth b = - 1))"
proof (rule search_loop.raw_induct
    [where P = "\<lambda>A' s0 d b res. A' = A \<longrightarrow>
        \<not> (d \<le> m_max_depth b \<and> (m_inc_depth b = 0 \<or> m_max_depth b = - 1))",
      OF _ run, THEN mp, OF _ refl], goal_cases)
  case (1 sl A' s0 d b res)
  show ?case
  proof (intro impI notI)
    assume A': "A' = A"
      and st: "d \<le> m_max_depth b \<and> (m_inc_depth b = 0 \<or> m_max_depth b = - 1)"
    show False
    proof (cases "search_upto A d b")
      case None
      then show ?thesis using 1(2) st A' by simp
    next
      case (Some rb)
      obtain r b1 where rb: "rb = (r, b1)" by (cases rb)
      have rn: "r = None" using allfail Some rb by blast
      have o: "same_options b b1" using search_upto_options [OF Some] rb by simp
      let ?b2 = "b1\<lparr>m_curr_state := s0, m_choice_points := []\<rparr>"
      have "sl A s0 (d + m_inc_depth b1) ?b2 = Some res"
        using 1(2) st A' Some rb rn by simp
      then have n: "\<not> (d + m_inc_depth b1 \<le> m_max_depth ?b2
          \<and> (m_inc_depth ?b2 = 0 \<or> m_max_depth ?b2 = - 1))"
        using 1(1) by blast
      have "d + m_inc_depth b1 \<le> m_max_depth ?b2
          \<and> (m_inc_depth ?b2 = 0 \<or> m_max_depth ?b2 = - 1)"
        using st o by (auto simp: same_options_def)
      then show False using n by blast
    qed
  qed
qed

text \<open>
  The claim C1 as it is written fails: every iteration can fail without \<^verbatim>\<open>search\<close>
  returning none. With \<^verbatim>\<open>inc_depth = 0\<close> each iteration is the first one again, at
  depth 1 within the bound 12 and from the same engine; with \<^verbatim>\<open>inc_depth\<close> \<open>2\<^sup>3\<^sup>1\<close>
  and \<^verbatim>\<open>max_depth\<close> the largest \<^verbatim>\<open>unsigned\<close> the depth is 0, then \<open>2\<^sup>3\<^sup>1\<close>, then 0
  again. In both engines every iteration fails and \<^verbatim>\<open>search\<close> does not return.
\<close>

theorem search_fails_without_returning:
  "search_upto ex_actions (m_init_depth ex_stuck_env) ex_stuck_env = Some (None, ex_stuck_env)
   \<and> m_init_depth ex_stuck_env + m_inc_depth ex_stuck_env = m_init_depth ex_stuck_env
   \<and> ex_stuck_env\<lparr>m_curr_state := m_curr_state ex_stuck_env, m_choice_points := []\<rparr> = ex_stuck_env
   \<and> every_iteration_fails ex_actions (m_curr_state ex_stuck_env) (m_max_depth ex_stuck_env)
       (m_inc_depth ex_stuck_env) (m_init_depth ex_stuck_env) ex_stuck_env
   \<and> search ex_actions ex_stuck_env = None
   \<and> 1 \<le> m_inc_depth ex_cycle_env
   \<and> search_upto ex_actions 0 ex_cycle_env = Some (None, ex_cycle_env)
   \<and> search_upto ex_actions (0 + m_inc_depth ex_cycle_env) ex_cycle_env = Some (None, ex_cycle_env)
   \<and> 0 + m_inc_depth ex_cycle_env + m_inc_depth ex_cycle_env = m_init_depth ex_cycle_env
   \<and> ex_cycle_env\<lparr>m_curr_state := m_curr_state ex_cycle_env, m_choice_points := []\<rparr> = ex_cycle_env
   \<and> every_iteration_fails ex_actions (m_curr_state ex_cycle_env) (m_max_depth ex_cycle_env)
       (m_inc_depth ex_cycle_env) (m_init_depth ex_cycle_env) ex_cycle_env
   \<and> search ex_actions ex_cycle_env = None"
proof -
  have f: "\<forall>d b0 r b1. search_upto ex_actions d b0 = Some (r, b1) \<longrightarrow> r = None"
    using search_upto_ex_allfail by blast
  have stuck: "search ex_actions b = None"
    if "m_init_depth b \<le> m_max_depth b" "m_inc_depth b = 0 \<or> m_max_depth b = - 1" for b
  proof (cases "search ex_actions b")
    case None
    then show ?thesis .
  next
    case (Some res)
    then have "search_loop ex_actions (m_curr_state b) (m_init_depth b) b = Some res"
      by (simp add: search_def)
    then show ?thesis using search_loop_stuck [OF _ f] that by blast
  qed
  have 1: "search_upto ex_actions (m_init_depth ex_stuck_env) ex_stuck_env = Some (None, ex_stuck_env)"
    by (rule search_upto_ex_no_choice) (simp add: ex_stuck_env_def)
  have 2: "m_init_depth ex_stuck_env + m_inc_depth ex_stuck_env = m_init_depth ex_stuck_env"
    "ex_stuck_env\<lparr>m_curr_state := m_curr_state ex_stuck_env, m_choice_points := []\<rparr> = ex_stuck_env"
    by (simp_all add: ex_stuck_env_def)
  have 3: "search ex_actions ex_stuck_env = None"
    by (rule stuck) (simp_all add: ex_stuck_env_def)
  have 4: "1 \<le> m_inc_depth ex_cycle_env" by (simp add: ex_cycle_env_def)
  have 5: "search_upto ex_actions d ex_cycle_env = Some (None, ex_cycle_env)" for d
    by (rule search_upto_ex_no_choice) (simp add: ex_cycle_env_def)
  have 6: "0 + m_inc_depth ex_cycle_env + m_inc_depth ex_cycle_env = m_init_depth ex_cycle_env"
    "ex_cycle_env\<lparr>m_curr_state := m_curr_state ex_cycle_env, m_choice_points := []\<rparr> = ex_cycle_env"
    by (simp_all add: ex_cycle_env_def)
  have 7: "search ex_actions ex_cycle_env = None"
    by (rule stuck) (simp_all add: ex_cycle_env_def)
  show ?thesis using 1 2 3 4 5 6 7 every_iteration_fails_ex by blast
qed

text \<open>
  C9, as amended. The loop of \<^verbatim>\<open>search\<close> returns when \<^verbatim>\<open>inc_depth\<close> is at least 1,
  \<^verbatim>\<open>max_depth + inc_depth\<close> does not exceed the largest \<^verbatim>\<open>unsigned\<close> (the depth cannot
  wrap around) and every inner search returns. With \<^verbatim>\<open>inc_depth = 0\<close>,
  \<^verbatim>\<open>init_depth\<close> within \<^verbatim>\<open>max_depth\<close> and no inner search finding a proof, it does not
  return.
\<close>

theorem search_terminates_without_wrap:
  "(1 \<le> m_inc_depth b \<longrightarrow> unat (m_max_depth b) + unat (m_inc_depth b) < 2 ^ 32 \<longrightarrow>
      (\<forall>d b0. search_upto A d b0 \<noteq> None) \<longrightarrow> (\<exists>res. search A b = Some res))
   \<and> (m_inc_depth b = 0 \<longrightarrow> m_init_depth b \<le> m_max_depth b \<longrightarrow>
      (\<forall>d b0 r b1. search_upto A d b0 = Some (r, b1) \<longrightarrow> r = None) \<longrightarrow> search A b = None)"
proof -
  have 1: "\<exists>res. search A b = Some res"
    if "1 \<le> m_inc_depth b" "unat (m_max_depth b) + unat (m_inc_depth b) < 2 ^ 32"
      "\<forall>d b0. search_upto A d b0 \<noteq> None"
    unfolding search_def using that by (intro search_loop_returns [where mx = "m_max_depth b"
          and inc = "m_inc_depth b"]) simp_all
  have 2: "search A b = None"
    if "m_inc_depth b = 0" "m_init_depth b \<le> m_max_depth b"
      "\<forall>d b0 r b1. search_upto A d b0 = Some (r, b1) \<longrightarrow> r = None"
  proof (cases "search A b")
    case None
    then show ?thesis .
  next
    case (Some res)
    then have "search_loop A (m_curr_state b) (m_init_depth b) b = Some res"
      by (simp add: search_def)
    then show ?thesis using search_loop_stuck [OF _ that(3)] that(1,2) by blast
  qed
  show ?thesis using 1 2 by blast
qed

theorem search_terminates_without_wrap_witness:
  "1 \<le> m_inc_depth ex_search_env
   \<and> unat (m_max_depth ex_search_env) + unat (m_inc_depth ex_search_env) < 2 ^ 32
   \<and> (\<exists>res. search ex_actions ex_search_env = Some res)
   \<and> m_inc_depth (ex_search_env\<lparr>m_inc_depth := 0\<rparr>) = 0
   \<and> m_init_depth (ex_search_env\<lparr>m_inc_depth := 0\<rparr>) \<le> m_max_depth (ex_search_env\<lparr>m_inc_depth := 0\<rparr>)
   \<and> search ex_actions (ex_search_env\<lparr>m_inc_depth := 0\<rparr>) = None"
proof -
  have a: "1 \<le> m_inc_depth ex_search_env"
    "unat (m_max_depth ex_search_env) + unat (m_inc_depth ex_search_env) < 2 ^ 32"
    by (simp_all add: ex_search_env_def)
  have b: "m_inc_depth (ex_search_env\<lparr>m_inc_depth := 0\<rparr>) = 0"
    "m_init_depth (ex_search_env\<lparr>m_inc_depth := 0\<rparr>) \<le> m_max_depth (ex_search_env\<lparr>m_inc_depth := 0\<rparr>)"
    by (simp_all add: ex_search_env_def)
  have t: "\<forall>d b0. search_upto ex_actions d b0 \<noteq> None"
    using search_upto_ex_total by blast
  have f: "\<forall>d b0 r b1. search_upto ex_actions d b0 = Some (r, b1) \<longrightarrow> r = None"
    using search_upto_ex_allfail by blast
  have 1: "\<exists>res. search ex_actions ex_search_env = Some res"
    using search_terminates_without_wrap [of ex_search_env ex_actions] a t by blast
  have 2: "search ex_actions (ex_search_env\<lparr>m_inc_depth := 0\<rparr>) = None"
    using search_terminates_without_wrap [of "ex_search_env\<lparr>m_inc_depth := 0\<rparr>" ex_actions] b f
    by blast
  show ?thesis using a b 1 2 by blast
qed

text \<open>
  The claim C9 as it is written fails: with \<^verbatim>\<open>inc_depth = 1\<close> and \<^verbatim>\<open>max_depth\<close> the
  largest \<^verbatim>\<open>unsigned\<close>, every inner search returns (the first one without a proof) and
  \<^verbatim>\<open>search\<close> does not return: the depth wraps around to 0 and is never beyond
  \<^verbatim>\<open>max_depth\<close>.
\<close>

theorem search_wraps_forever:
  "1 \<le> m_inc_depth ex_wrap_env
   \<and> search_upto ex_actions (m_init_depth ex_wrap_env) ex_wrap_env = Some (None, ex_wrap_env)
   \<and> search ex_actions ex_wrap_env = None"
proof -
  have 1: "1 \<le> m_inc_depth ex_wrap_env" by (simp add: ex_wrap_env_def)
  have 2: "search_upto ex_actions (m_init_depth ex_wrap_env) ex_wrap_env = Some (None, ex_wrap_env)"
    by (rule search_upto_ex_no_choice) (simp add: ex_wrap_env_def)
  have f: "\<forall>d b0 r b1. search_upto ex_actions d b0 = Some (r, b1) \<longrightarrow> r = None"
    using search_upto_ex_allfail by blast
  have 3: "search ex_actions ex_wrap_env = None"
  proof (cases "search ex_actions ex_wrap_env")
    case None
    then show ?thesis .
  next
    case (Some res)
    then have "search_loop ex_actions (m_curr_state ex_wrap_env) (m_init_depth ex_wrap_env) ex_wrap_env
        = Some res" by (simp add: search_def)
    then have "\<not> (m_init_depth ex_wrap_env \<le> m_max_depth ex_wrap_env
        \<and> (m_inc_depth ex_wrap_env = 0 \<or> m_max_depth ex_wrap_env = - 1))"
      using search_loop_stuck [OF _ f] by blast
    then show ?thesis by (simp add: ex_wrap_env_def)
  qed
  show ?thesis using 1 2 3 by simp
qed

subsection \<open>Internalization of metavariable applications\<close>

lemmas internalize_eval =
  eval_nat_numeral to_state_def ex_hyps_def ex_nrm_def ex_infer_def ex_fx_def
  visit_local_def is_meta_def visit_meta_app_def init_to_blast_env_def empty_state_def
  mk_hypothesis_def mk_metavar_def mk_mref_app_def mk_app_def mk_href_def mk_mref_def closed_def
  same_mlocal_name_def Let_def

lemma prefix_matches_Cons:
  "prefix_matches (d # ds) (a # as) =
      ((if is_local d then is_local a \<and> mlocal_name a = mlocal_name d else a = d)
       \<and> prefix_matches ds as)"
  unfolding prefix_matches_def by (simp add: All_less_Suc2) blast

lemma check_prefix_matches:
  "length ds \<le> length as \<Longrightarrow> check_prefix ds as = prefix_matches ds as"
proof (induction ds as rule: check_prefix.induct)
  case (1 args)
  then show ?case by (simp add: prefix_matches_def)
next
  case (2 d ds)
  then show ?case by simp
next
  case (3 d ds a as)
  then have len: "length ds \<le> length as" by simp
  show ?case
  proof (cases "is_local d")
    case True
    then show ?thesis using 3(1) len by (auto simp add: prefix_matches_Cons)
  next
    case False
    then show ?thesis using 3(2) len by (auto simp add: prefix_matches_Cons)
  qed
qed

text \<open>
  C3. When the metavariable of an application has been met before, the arguments
  recorded at the first encounter must match the new arguments position by position
  (the same local constant where one was recorded); on any mismatch internalization
  fails with the unsupported-metavariable-occurrence error, and on a match it goes on
  with the reference recorded for the metavariable and the remaining arguments.
\<close>

theorem second_encounter_must_match:
  assumes "get_app_fn e = Meta mn" and "tb_mvar2meta_mref st mn = Some (meta, mref)"
  shows "(\<not> prefix_matches (get_app_args meta) (get_app_args e) \<longrightarrow>
            visit_meta_app V C e st = Inl (Unsupported_metavar_occ e))
       \<and> (prefix_matches (get_app_args meta) (get_app_args e) \<longrightarrow>
            visit_meta_app V C e st
              = mk_mref_app V mref (drop (length (get_app_args meta)) (get_app_args e)) st)"
proof (cases "length (get_app_args meta) \<le> length (get_app_args e)")
  case True
  then show ?thesis using assms check_prefix_matches [OF True]
    by (simp add: visit_meta_app_def Let_def)
next
  case False
  then have "\<not> prefix_matches (get_app_args meta) (get_app_args e)"
    by (simp add: prefix_matches_def)
  then show ?thesis using assms False by (simp add: visit_meta_app_def Let_def)
qed

theorem second_encounter_must_match_witness:
  "get_app_fn (App (Meta (Name ''m'')) (Local (Name ''y''))) = Meta (Name ''m'')
   \<and> tb_mvar2meta_mref ex_seen_env (Name ''m'')
       = Some (App (Meta (Name ''m'')) (Local (Name ''x'')), mk_mref 0)
   \<and> \<not> prefix_matches [Local (Name ''x'')] [Local (Name ''y'')]
   \<and> visit_meta_app (visit 3 ex_cfg) ex_cfg (App (Meta (Name ''m'')) (Local (Name ''y''))) ex_seen_env
       = Inl (Unsupported_metavar_occ (App (Meta (Name ''m'')) (Local (Name ''y''))))
   \<and> to_state 6 ex_nrm ex_infer ex_goal_mx_my (init_to_blast_env :: nat to_blast_env)
       = Inl (Unsupported_metavar_occ (App (Meta (Name ''m'')) (Local (Name ''y''))))"
proof -
  have 1: "get_app_fn (App (Meta (Name ''m'')) (Local (Name ''y''))) = Meta (Name ''m'')" by simp
  have 2: "tb_mvar2meta_mref ex_seen_env (Name ''m'')
       = Some (App (Meta (Name ''m'')) (Local (Name ''x'')), mk_mref 0)"
    by (simp add: ex_seen_env_def)
  have 3: "\<not> prefix_matches [Local (Name ''x'')] [Local (Name ''y'')]"
    by (simp add: prefix_matches_def)
  have 4: "visit_meta_app (visit 3 ex_cfg) ex_cfg (App (Meta (Name ''m'')) (Local (Name ''y''))) ex_seen_env
       = Inl (Unsupported_metavar_occ (App (Meta (Name ''m'')) (Local (Name ''y''))))"
    using second_encounter_must_match [OF 1 2, of "visit 3 ex_cfg" ex_cfg] 3 by simp
  have "(case to_state 6 ex_nrm ex_infer ex_goal_mx_my (init_to_blast_env :: nat to_blast_env) of
           Inl err \<Rightarrow> Some err | Inr st \<Rightarrow> None)
       = Some (Unsupported_metavar_occ (App (Meta (Name ''m'')) (Local (Name ''y''))))"
    by (simp add: ex_goal_mx_my_def internalize_eval)
  then have 5: "to_state 6 ex_nrm ex_infer ex_goal_mx_my (init_to_blast_env :: nat to_blast_env)
       = Inl (Unsupported_metavar_occ (App (Meta (Name ''m'')) (Local (Name ''y''))))"
    by (simp split: sum.splits)
  show ?thesis using 1 2 3 4 5 by simp
qed

text \<open>
  What is recorded at the first encounter is the whole application, so a second
  encounter is compared with all its arguments, not only with those of the closed
  prefix: after \<open>?m x #0\<close>, whose prefix is \<open>x\<close>, the application \<open>?m x #1\<close> is
  refused.
\<close>

lemma second_encounter_compares_all_arguments:
  "(case visit 6 ex_cfg ex_two_apps (init_to_blast_env :: nat to_blast_env) of
      Inl err \<Rightarrow> Some err | Inr r \<Rightarrow> None)
   = Some (Unsupported_metavar_occ (App (App (Meta (Name ''m'')) (Local (Name ''x''))) (Var 1)))"
  by (simp add: ex_two_apps_def ex_cfg_def internalize_eval)









lemma scan_prefix_contract:
  "closed a \<Longrightarrow> is_local a \<Longrightarrow> earlier_names_differ prev a = Inl err \<Longrightarrow>
   scan_prefix l2h e prev (a # as) ctx = Inl err"
  by simp










text \<open>
  In the application \<open>?m (f x) x\<close> that the specification names, the local constant
  \<open>x\<close> comes after \<open>f x\<close>, which was passed over. The scan then compares the name of
  \<open>x\<close> with \<^verbatim>\<open>mlocal_name\<close> of \<open>f x\<close>, outside the contract of \<^verbatim>\<open>mlocal_name\<close>: the
  run ends at the violated assertion, not with the unsupported-metavariable-occurrence
  error. With the repeated local constant first, as in \<open>?m x (f x) x\<close>, the comparison
  ends at \<open>x\<close> and \<open>f x\<close> is not reached.
\<close>

lemma internalize_m_fx_x:
  "to_state 6 ex_nrm ex_infer ex_goal_m_fx_x (init_to_blast_env :: nat to_blast_env)
     = Inl Assertion_violated
   \<and> \<not> mlocal_contract_kept [] (get_app_args (g_type ex_goal_m_fx_x))
   \<and> (case visit 4 ex_cfg (App (App (App (Meta (Name ''m'')) (Local (Name ''x''))) ex_fx) (Local (Name ''x'')))
             (init_to_blast_env :: nat to_blast_env) of
         Inl err \<Rightarrow> None
       | Inr (r, st) \<Rightarrow> Some (r, m_metavar_decls (tb_state st) 0))
       = Some (mk_mref 0, Some \<lparr>md_type = Sort LZero, md_context = {0}\<rparr>)"
  by (simp add: ex_goal_m_fx_x_def ex_cfg_def internalize_eval)

subsection \<open>Externalization of the proof term\<close>

lemma map_err_all_Inr:
  "(\<And>a. a \<in> set xs \<Longrightarrow> f a = Inr (g a)) \<Longrightarrow> map_err f xs = Inr (map g xs)"
  by (induction xs) simp_all

lemma fold_max_ge: "a \<in> set xs \<Longrightarrow> a \<le> fold max xs (b :: nat)"
proof (induction xs arbitrary: b)
  case Nil
  then show ?case by simp
next
  case (Cons x xs)
  have mono: "\<And>c. c \<le> fold max xs c"
  proof -
    fix c show "c \<le> fold max xs c"
    proof (induction xs arbitrary: c)
      case Nil
      then show ?case by simp
    next
      case (Cons y ys)
      have "c \<le> max y c" by simp
      also have "\<dots> \<le> fold max ys (max y c)" by (rule Cons)
      finally show ?case by simp
    qed
  qed
  show ?case
  proof (cases "a = x")
    case True
    have "x \<le> max x b" by simp
    also have "\<dots> \<le> fold max xs (max x b)" by (rule mono)
    finally show ?thesis using True by simp
  next
    case False
    then have "a \<in> set xs" using Cons.prems by simp
    then show ?thesis using Cons.IH [of "max x b"] by simp
  qed
qed

lemma expr_depth_arg: "a \<in> set args \<Longrightarrow> expr_depth a < expr_depth (Macro md args)"
  using fold_max_ge [of "expr_depth a" "map expr_depth args" 0] by (simp add: less_Suc_eq_le)

lemma tp_visit_external_local:
  "is_local v \<Longrightarrow> \<not> is_href v \<Longrightarrow> tp_visit (Suc n) s v = Inr v"
  by (cases v) (simp_all add: visit_mlocal_def)

lemma recorded_localD:
  assumes "recorded_local s i = Some v"
  shows "\<exists>h. get_hypothesis_decl s (Local (Href_name i)) = Some h \<and> h_value h = Some v
           \<and> is_local v \<and> \<not> is_href v"
  using assms
  by (auto simp: recorded_local_def get_hypothesis_decl_def split: option.splits if_splits)

text \<open>
  In a proof term without metavariables, all of whose hypothesis references stand for
  hypotheses recorded with an external local constant, every reference is replaced by
  that local constant, given fuel for the depth of the term.
\<close>

lemma tp_visit_replaces_hrefs:
  assumes "\<forall>x \<in> subterms pr. \<not> is_metavar x"
    and "\<forall>i \<in> href_occs pr. recorded_local s i \<noteq> None"
    and "expr_depth pr + 2 \<le> fuel"
  shows "tp_visit fuel s pr = Inr (replace_hrefs (\<lambda>i. the (recorded_local s i)) pr)"
  using assms
proof (induction pr arbitrary: fuel)
  case (Var k)
  then obtain n where "fuel = Suc n" by (cases fuel) auto
  then show ?case by simp
next
  case (Sort l)
  then obtain n where "fuel = Suc n" by (cases fuel) auto
  then show ?case by simp
next
  case (Constant c ls)
  then obtain n where "fuel = Suc n" by (cases fuel) auto
  then show ?case by simp
next
  case (Meta nm)
  then show ?case by simp
next
  case (Local nm)
  then obtain n where n: "fuel = Suc (Suc n)" by (cases fuel; cases "fuel - 1") auto
  show ?case
  proof (cases nm)
    case (Href_name i)
    then have "recorded_local s i \<noteq> None" using Local.prems(2) by simp
    then obtain v where v: "recorded_local s i = Some v" by blast
    from recorded_localD [OF v] obtain h where
      h: "get_hypothesis_decl s (Local (Href_name i)) = Some h" "h_value h = Some v"
         "is_local v" "\<not> is_href v" by blast
    have "tp_visit (Suc n) s v = Inr v" using h(3,4) by (rule tp_visit_external_local)
    then show ?thesis using n Href_name h(1,2) v by simp
  qed (simp_all add: n visit_mlocal_def)
next
  case (App g a)
  then obtain n where n: "fuel = Suc n" by (cases fuel) auto
  have "tp_visit n s g = Inr (replace_hrefs (\<lambda>i. the (recorded_local s i)) g)"
    using App.prems n by (intro App.IH(1)) auto
  moreover have "tp_visit n s a = Inr (replace_hrefs (\<lambda>i. the (recorded_local s i)) a)"
    using App.prems n by (intro App.IH(2)) auto
  ultimately show ?case using n by simp
next
  case (Lam bn d b bi)
  then obtain n where n: "fuel = Suc n" by (cases fuel) auto
  have "tp_visit n s d = Inr (replace_hrefs (\<lambda>i. the (recorded_local s i)) d)"
    using Lam.prems n by (intro Lam.IH(1)) auto
  moreover have "tp_visit n s b = Inr (replace_hrefs (\<lambda>i. the (recorded_local s i)) b)"
    using Lam.prems n by (intro Lam.IH(2)) auto
  ultimately show ?case using n by simp
next
  case (Pi bn d b bi)
  then obtain n where n: "fuel = Suc n" by (cases fuel) auto
  have "tp_visit n s d = Inr (replace_hrefs (\<lambda>i. the (recorded_local s i)) d)"
    using Pi.prems n by (intro Pi.IH(1)) auto
  moreover have "tp_visit n s b = Inr (replace_hrefs (\<lambda>i. the (recorded_local s i)) b)"
    using Pi.prems n by (intro Pi.IH(2)) auto
  ultimately show ?case using n by simp
next
  case (Macro md args)
  then obtain n where n: "fuel = Suc n" by (cases fuel) auto
  have each: "tp_visit n s a = Inr (replace_hrefs (\<lambda>i. the (recorded_local s i)) a)"
    if a: "a \<in> set args" for a
  proof (rule Macro.IH [OF a])
    show "\<forall>x \<in> subterms a. \<not> is_metavar x" using Macro.prems(1) a by auto
    show "\<forall>i \<in> href_occs a. recorded_local s i \<noteq> None" using Macro.prems(2) a by auto
    show "expr_depth a + 2 \<le> n" using Macro.prems(3) n expr_depth_arg [OF a, of md] by simp
  qed
  have "map_err (tp_visit n s) args = Inr (map (replace_hrefs (\<lambda>i. the (recorded_local s i))) args)"
    by (rule map_err_all_Inr) (rule each)
  then show ?case using n by simp
qed

text \<open>
  C6, at the failing input. The goal with hypotheses \<open>x : A\<close>, \<open>y : A\<close> and target
  \<open>?m x\<close> is internalized: the hypothesis \<open>h\<^sub>0\<close> is recorded with the external local
  constant \<open>x\<close>, and \<open>?0\<close> stands for \<open>?m x\<close> with the context \<open>{0}\<close>. The assignment
  \<open>?0 := h\<^sub>0\<close> passes \<^verbatim>\<open>validate_assignment\<close> and is recorded. Externalizing the proof
  term \<open>k ?0 h\<^sub>0\<close> gives \<open>k h\<^sub>0 x\<close>: the reference that stands in the proof term is
  replaced by \<open>x\<close>, the one that comes in with the value of \<open>?0\<close> is not, because
  \<^verbatim>\<open>visit_meta\<close> hands the value to the base visitor for metavariables and not to
  \<^verbatim>\<open>visit\<close>.
\<close>

theorem href_in_assignment_not_replaced:
  "(case to_state 6 ex_nrm ex_infer ex_goal_mx (init_to_blast_env :: nat to_blast_env) of
      Inl err \<Rightarrow> None
    | Inr st \<Rightarrow>
       (case validate_assignment (mk_mref 0) [] (mk_href 0) (tb_state st) of
          None \<Rightarrow> None
        | Some (ok, s) \<Rightarrow>
            Some (ok, recorded_local s 0,
                  get_mref_assignment (assign_mref (mk_mref 0) (mk_href 0) s) (mk_mref 0),
                  to_tactic_proof 5 (assign_mref (mk_mref 0) (mk_href 0) s) ex_assigned_proof)))
   = Some (True, Some (Local (Name ''x'')), Some (mk_href 0),
           Inr (App (App (Constant (Name ''k'') []) (mk_href 0)) (Local (Name ''x''))))"
  by (simp add: ex_goal_mx_def ex_assigned_proof_def internalize_eval to_tactic_proof_def
      validate_assignment_def validate_step_def get_metavar_decl_def contains_href_def
      assign_mref_def recorded_local_def get_mref_assignment_def get_hypothesis_decl_def
      visit_mlocal_def)

lemma unassigned_mref_kept:
  "is_mref m \<Longrightarrow> get_mref_assignment s m = None \<Longrightarrow> to_tactic_proof (Suc (Suc n)) s m = Inr m"
  by (cases m rule: is_mref.cases) (simp_all add: to_tactic_proof_def)

text \<open>
  C5, at the failing input. The goal with target \<open>?m x\<close> is internalized: \<open>?m\<close> is
  recorded with the application \<open>?m x\<close> and the reference \<open>?0\<close>, which has no
  assignment. Externalizing the proof term \<open>\<lambda>h : ?0. k h\<^sub>0 h\<close> replaces \<open>h\<^sub>0\<close> by \<open>x\<close>
  and leaves \<open>?0\<close> where it is: the application \<open>?m x\<close> is not put back.
\<close>

theorem unassigned_mref_not_reconstituted:
  "(case to_state 6 ex_nrm ex_infer ex_goal_mx (init_to_blast_env :: nat to_blast_env) of
      Inl err \<Rightarrow> None
    | Inr st \<Rightarrow> Some (tb_mvar2meta_mref st (Name ''m''),
                      get_mref_assignment (tb_state st) (mk_mref 0),
                      to_tactic_proof 5 (tb_state st) ex_proof))
   = Some (Some (App (Meta (Name ''m'')) (Local (Name ''x'')), mk_mref 0),
           None,
           Inr (Lam (Name ''h'') (mk_mref 0)
                  (App (App (Constant (Name ''k'') []) (Local (Name ''x''))) (Var 0))
                  Binder_default))"
  by (simp add: ex_goal_mx_def ex_proof_def internalize_eval to_tactic_proof_def
      get_mref_assignment_def get_hypothesis_decl_def visit_mlocal_def)

end
